theory Spec2Isabelle
  imports Main
begin

section \<open>Configuration (check\_tl.py, lines 11--24)\<close>

definition DB_PATH :: string where
  "DB_PATH = ''snapshot.db''"

definition AIRDROP_TABLE :: string where
  "AIRDROP_TABLE = ''tokens''"

definition MISSING_TL_TABLE :: string where
  "MISSING_TL_TABLE = ''tokens_missing_tl''"

definition RETRY_QUEUE_TABLE :: string where
  "RETRY_QUEUE_TABLE = ''retry_queue''"

definition NODES :: "string list" where
  "NODES = [''https://xrplcluster.com/'', ''https://s2.ripple.com:51234/'', ''https://xrpl.link/'']"

definition ISSUER_OF_TOKEN :: string where
  "ISSUER_OF_TOKEN = ''rJ9uU9jKxNcsNQM2CLKUhPxNn8P4xmhDVq''"

definition CURRENCY_HEX :: string where
  "CURRENCY_HEX = ''4241594E414E4100000000000000000000000000''"

text \<open>The two locals of \<open>fetch_trustlines_with_failover\<close> (lines 72--73).\<close>

definition max_retries_per_node :: nat where
  "max_retries_per_node = 2"

definition base_backoff_seconds :: nat where
  "base_backoff_seconds = 2"


section \<open>The ledger network\<close>

text \<open>
  A trustline entry is a JSON object; the program only reads it with \<open>line.get(key)\<close>.
  It is an association list from keys to string values, and \<open>map_of l k\<close> is
  \<open>l.get(k)\<close>: \<open>None\<close> when the key is missing.
\<close>

type_synonym line = "(string \<times> string) list"

text \<open>
  What one call \<open>client.request(req)\<close> inside the \<open>try\<close> block can do: raise an
  exception, answer with \<open>is_successful()\<close> false, or answer successfully. The result
  of a successful answer is a JSON object: \<open>Successful (Some lines)\<close> when its key
  \<open>lines\<close> holds a list of entries, \<open>Successful None\<close> when it has no key
  \<open>lines\<close>, and \<open>Successful_null\<close> when the key \<open>lines\<close> holds \<open>null\<close>.
\<close>

datatype response = Raised | Unsuccessful | Successful "line list option" | Successful_null

text \<open>
  The network is outside the program. It is a parameter: a transition function on an
  arbitrary world state \<open>'w\<close>, taking the node URL and the wallet of the request.
  The same node may answer the same wallet differently at different times.
\<close>

type_synonym 'w client = "'w \<Rightarrow> string \<Rightarrow> string \<Rightarrow> response \<times> 'w"

text \<open>
  The effects of the program on the outside, in the order they happen:
  a request sent to a node for a wallet, a \<open>time.sleep\<close> of a whole number of seconds
  (the backoff), the fixed \<open>time.sleep(0.2)\<close> of the two passes, and a marker for each
  call of \<open>has_trustline\<close>. Log lines are not recorded: they do not change control flow.
\<close>

datatype event = Classify string | Request string string | Sleep nat | Throttle


section \<open>fetch\_trustlines\_with\_failover (lines 62--108)\<close>

text \<open>
  The inner loop \<open>for attempt in range(1, max_retries_per_node + 1)\<close> on one node,
  over the attempt numbers still to run. The first component is \<open>None\<close> when the
  loop ran out, and \<open>Some v\<close> when line 88 returned the Python value \<open>v\<close>, which
  is \<open>result.get("lines", [])\<close>: the list under the key \<open>lines\<close>, the default
  \<open>[]\<close> when the key is missing, and Python's \<open>None\<close> when the key holds
  \<open>null\<close> (\<open>dict.get\<close> uses its default only for a missing key).
  After every failed attempt the loop body reaches line 101 and sleeps.
\<close>

fun attempt_loop ::
  "'w client \<Rightarrow> string \<Rightarrow> string \<Rightarrow> nat list \<Rightarrow> 'w
     \<Rightarrow> line list option option \<times> 'w \<times> event list" where
  "attempt_loop request node_url Wallet [] w = (None, w, [])"
| "attempt_loop request node_url Wallet (attempt # rest) w =
     (case request w node_url Wallet of
        (Successful result, w') \<Rightarrow>
          (Some (Some (case result of Some lines \<Rightarrow> lines | None \<Rightarrow> [])), w',
           [Request node_url Wallet])
      | (Successful_null, w') \<Rightarrow> (Some None, w', [Request node_url Wallet])
      | (Raised, w') \<Rightarrow>
          (case attempt_loop request node_url Wallet rest w' of
             (r, w'', evs) \<Rightarrow>
               (r, w'', Request node_url Wallet # Sleep (base_backoff_seconds * attempt) # evs))
      | (Unsuccessful, w') \<Rightarrow>
          (case attempt_loop request node_url Wallet rest w' of
             (r, w'', evs) \<Rightarrow>
               (r, w'', Request node_url Wallet # Sleep (base_backoff_seconds * attempt) # evs)))"

text \<open>
  The outer loop \<open>for node_url in NODES\<close>. Its first component is the value the
  function returns: what line 88 returned, or the \<open>None\<close> of line 108 when every
  node ran out of attempts.
\<close>

fun node_loop ::
  "'w client \<Rightarrow> string \<Rightarrow> string list \<Rightarrow> 'w \<Rightarrow> line list option \<times> 'w \<times> event list" where
  "node_loop request Wallet [] w = (None, w, [])"
| "node_loop request Wallet (node_url # rest) w =
     (case attempt_loop request node_url Wallet [1 ..< max_retries_per_node + 1] w of
        (Some lines, w', evs) \<Rightarrow> (lines, w', evs)
      | (None, w', evs) \<Rightarrow>
          (case node_loop request Wallet rest w' of
             (r, w'', evs') \<Rightarrow> (r, w'', evs @ evs')))"

definition fetch_trustlines_with_failover ::
  "'w client \<Rightarrow> string \<Rightarrow> 'w \<Rightarrow> line list option \<times> 'w \<times> event list" where
  "fetch_trustlines_with_failover request Wallet w = node_loop request Wallet NODES w"


section \<open>has\_trustline (lines 111--131)\<close>

text \<open>The loop of lines 127--131 over the trustline entries, with its early return.\<close>

fun scan_lines :: "line list \<Rightarrow> bool" where
  "scan_lines [] = False"
| "scan_lines (l # ls) =
     (if map_of l ''account'' = Some ISSUER_OF_TOKEN \<and> map_of l ''currency'' = Some CURRENCY_HEX
      then True else scan_lines ls)"

text \<open>
  Python's \<open>Optional[bool]\<close> is \<open>bool option\<close>: \<open>Some True\<close> is Present,
  \<open>Some False\<close> is Absent and \<open>None\<close> is Indeterminate. The test
  \<open>lines is None\<close> of line 122 does not tell the \<open>None\<close> of line 108 from a
  \<open>None\<close> returned by line 88.
\<close>

definition has_trustline :: "'w client \<Rightarrow> string \<Rightarrow> 'w \<Rightarrow> bool option \<times> 'w \<times> event list" where
  "has_trustline request Wallet w =
     (case fetch_trustlines_with_failover request Wallet w of
        (None, w', evs) \<Rightarrow> (None, w', Classify Wallet # evs)
      | (Some lines, w', evs) \<Rightarrow> (Some (scan_lines lines), w', Classify Wallet # evs))"


section \<open>The database (schema of lines 40--54)\<close>

text \<open>
  A table is the list of its rows in the order a \<open>SELECT\<close> without \<open>ORDER BY\<close> yields
  them. The program copies balances and never inspects them, so their type is a
  parameter. The counter \<open>tries\<close> is an integer column. The record always holds the three
  tables of the schema; a table that \<open>CREATE TABLE IF NOT EXISTS\<close> has just created is
  the empty list.
\<close>

record 'b db =
  tokens :: "(string \<times> 'b) list"
  tokens_missing_tl :: "(string \<times> 'b) list"
  retry_queue :: "(string \<times> 'b \<times> int) list"

text \<open>
  A connection of Python's \<open>sqlite3\<close> in its default mode: the statements
  \<open>INSERT\<close>, \<open>REPLACE\<close> and \<open>DELETE\<close> run inside a transaction that is opened
  implicitly and stays open until \<open>conn.commit()\<close>. \<open>current\<close> is what the
  connection's own statements see; \<open>durable\<close> is what the database file holds, and what
  is left when the process is killed.
\<close>

record 'b connection =
  durable :: "'b db"
  current :: "'b db"

definition connect :: "'b db \<Rightarrow> 'b connection" where
  "connect file = \<lparr>durable = file, current = file\<rparr>"

definition commit :: "'b connection \<Rightarrow> 'b connection" where
  "commit conn = conn\<lparr>durable := current conn\<rparr>"

text \<open>
  \<open>SELECT Wallet, Balance FROM {table_name}\<close>. A name that is none of the three tables
  is \<open>sqlite3.OperationalError\<close> (no such table), the value \<open>None\<close>.
\<close>

definition select_wallet_balance :: "'b db \<Rightarrow> string \<Rightarrow> (string \<times> 'b) list option" where
  "select_wallet_balance d table_name =
     (if table_name = AIRDROP_TABLE then Some (tokens d)
      else if table_name = MISSING_TL_TABLE then Some (tokens_missing_tl d)
      else if table_name = RETRY_QUEUE_TABLE
        then Some (map (\<lambda>(Wallet, Balance, tries). (Wallet, Balance)) (retry_queue d))
      else None)"

text \<open>
  \<open>INSERT OR REPLACE INTO tokens_missing_tl (Wallet, Balance) VALUES (?, ?)\<close>:
  \<open>Wallet\<close> is the primary key, so a row with the same key is removed and the new
  row is added after the others.
\<close>

definition insert_or_replace_missing :: "string \<Rightarrow> 'b \<Rightarrow> 'b db \<Rightarrow> 'b db" where
  "insert_or_replace_missing Wallet Balance d =
     d\<lparr>tokens_missing_tl :=
         filter (\<lambda>r. fst r \<noteq> Wallet) (tokens_missing_tl d) @ [(Wallet, Balance)]\<rparr>"

text \<open>
  The statement of lines 186--189. The value of \<open>tries\<close> is
  \<open>COALESCE((SELECT tries FROM retry_queue WHERE Wallet=?), 0)\<close>, read before the
  old row is replaced.
\<close>

definition select_tries :: "'b db \<Rightarrow> string \<Rightarrow> int option" where
  "select_tries d Wallet =
     (case find (\<lambda>r. fst r = Wallet) (retry_queue d) of
        None \<Rightarrow> None
      | Some (W, Balance, tries) \<Rightarrow> Some tries)"

definition insert_or_replace_retry :: "string \<Rightarrow> 'b \<Rightarrow> 'b db \<Rightarrow> 'b db" where
  "insert_or_replace_retry Wallet Balance d =
     d\<lparr>retry_queue :=
         filter (\<lambda>r. fst r \<noteq> Wallet) (retry_queue d)
         @ [(Wallet, Balance, case select_tries d Wallet of Some tries \<Rightarrow> tries | None \<Rightarrow> 0)]\<rparr>"

text \<open>
  \<open>DELETE FROM {table_name} WHERE Wallet = ?\<close>. It always follows a \<open>SELECT\<close> on the
  same name that has succeeded, so the last branch is never reached.
\<close>

definition delete_from :: "string \<Rightarrow> string \<Rightarrow> 'b db \<Rightarrow> 'b db" where
  "delete_from table_name Wallet d =
     (if table_name = AIRDROP_TABLE
        then d\<lparr>tokens := filter (\<lambda>r. fst r \<noteq> Wallet) (tokens d)\<rparr>
      else if table_name = MISSING_TL_TABLE
        then d\<lparr>tokens_missing_tl := filter (\<lambda>r. fst r \<noteq> Wallet) (tokens_missing_tl d)\<rparr>
      else if table_name = RETRY_QUEUE_TABLE
        then d\<lparr>retry_queue := filter (\<lambda>r. fst r \<noteq> Wallet) (retry_queue d)\<rparr>
      else d)"

definition ensure_tables :: "'b connection \<Rightarrow> 'b connection" where
  "ensure_tables conn = commit conn"


section \<open>process\_Wallets\_table (lines 137--194)\<close>

text \<open>
  The state of the loop is the connection's view of the database, the two counters,
  the world and the events so far. \<open>wallets_body\<close> is the loop body of lines 155--191
  for one fetched row.
\<close>

type_synonym ('b, 'w) wallets_state = "'b db \<times> nat \<times> nat \<times> 'w \<times> event list"

fun wallets_body ::
  "'w client \<Rightarrow> string \<Rightarrow> bool \<Rightarrow> string \<times> 'b \<Rightarrow> ('b, 'w) wallets_state \<Rightarrow> ('b, 'w) wallets_state" where
  "wallets_body request table_name second_pass (Wallet, Balance)
       (d, Wallets_moved_missing, Wallets_moved_retry, w, tr) =
     (case has_trustline request Wallet w of
        (tl_status, w', evs) \<Rightarrow>
          (case tl_status of
             Some True \<Rightarrow>
               (d, Wallets_moved_missing, Wallets_moved_retry, w', tr @ evs @ [Throttle])
           | Some False \<Rightarrow>
               (delete_from table_name Wallet (insert_or_replace_missing Wallet Balance d),
                Wallets_moved_missing + 1, Wallets_moved_retry, w', tr @ evs @ [Throttle])
           | None \<Rightarrow>
               (if second_pass
                then (delete_from table_name Wallet (insert_or_replace_missing Wallet Balance d),
                      Wallets_moved_missing + 1, Wallets_moved_retry, w', tr @ evs @ [Throttle])
                else (delete_from table_name Wallet (insert_or_replace_retry Wallet Balance d),
                      Wallets_moved_missing, Wallets_moved_retry + 1, w', tr @ evs @ [Throttle]))))"

text \<open>The loop \<open>for (Wallet, Balance) in rows\<close> over the rows fetched before it starts.\<close>

fun wallets_loop ::
  "'w client \<Rightarrow> string \<Rightarrow> bool \<Rightarrow> (string \<times> 'b) list \<Rightarrow> ('b, 'w) wallets_state \<Rightarrow> ('b, 'w) wallets_state" where
  "wallets_loop request table_name second_pass [] st = st"
| "wallets_loop request table_name second_pass (row # rows) st =
     wallets_loop request table_name second_pass rows
       (wallets_body request table_name second_pass row st)"

text \<open>
  The whole function: the \<open>SELECT\<close>, the loop on the open transaction, one
  \<open>conn.commit()\<close> after the loop (line 193), and the pair of counters.
\<close>

definition process_Wallets_table ::
  "'w client \<Rightarrow> 'b connection \<Rightarrow> string \<Rightarrow> bool \<Rightarrow> 'w \<times> event list
     \<Rightarrow> ('b connection \<times> (nat \<times> nat) \<times> 'w \<times> event list) option" where
  "process_Wallets_table request conn table_name second_pass s =
     (case select_wallet_balance (current conn) table_name of
        None \<Rightarrow> None
      | Some rows \<Rightarrow>
          (case wallets_loop request table_name second_pass rows (current conn, 0, 0, fst s, snd s) of
             (d, Wallets_moved_missing, Wallets_moved_retry, w', tr') \<Rightarrow>
               Some (commit (conn\<lparr>current := d\<rparr>),
                     (Wallets_moved_missing, Wallets_moved_retry), w', tr')))"

text \<open>
  The process killed from outside after \<open>k\<close> iterations of the loop, before line 193:
  the transaction is still open, and the file is what \<open>durable\<close> holds.
\<close>

definition process_Wallets_table_killed ::
  "nat \<Rightarrow> 'w client \<Rightarrow> 'b connection \<Rightarrow> string \<Rightarrow> bool \<Rightarrow> 'w \<times> event list \<Rightarrow> 'b connection option" where
  "process_Wallets_table_killed k request conn table_name second_pass s =
     (case select_wallet_balance (current conn) table_name of
        None \<Rightarrow> None
      | Some rows \<Rightarrow>
          (case wallets_loop request table_name second_pass (take k rows)
                  (current conn, 0, 0, fst s, snd s) of
             (d, Wallets_moved_missing, Wallets_moved_retry, w', tr') \<Rightarrow>
               Some (conn\<lparr>current := d\<rparr>)))"


section \<open>process\_retry\_queue (lines 197--227)\<close>

type_synonym ('b, 'w) retry_state = "'b db \<times> nat \<times> 'w \<times> event list"

fun retry_body ::
  "'w client \<Rightarrow> string \<times> 'b \<times> int \<Rightarrow> ('b, 'w) retry_state \<Rightarrow> ('b, 'w) retry_state" where
  "retry_body request (Wallet, Balance, tries) (d, Wallets_moved_missing, w, tr) =
     (case has_trustline request Wallet w of
        (tl_status, w', evs) \<Rightarrow>
          (case tl_status of
             Some True \<Rightarrow>
               (delete_from RETRY_QUEUE_TABLE Wallet d, Wallets_moved_missing, w',
                tr @ evs @ [Throttle])
           | Some False \<Rightarrow>
               (delete_from RETRY_QUEUE_TABLE Wallet (insert_or_replace_missing Wallet Balance d),
                Wallets_moved_missing + 1, w', tr @ evs @ [Throttle])
           | None \<Rightarrow>
               (delete_from RETRY_QUEUE_TABLE Wallet (insert_or_replace_missing Wallet Balance d),
                Wallets_moved_missing + 1, w', tr @ evs @ [Throttle])))"

fun retry_loop ::
  "'w client \<Rightarrow> (string \<times> 'b \<times> int) list \<Rightarrow> ('b, 'w) retry_state \<Rightarrow> ('b, 'w) retry_state" where
  "retry_loop request [] st = st"
| "retry_loop request (row # rows) st = retry_loop request rows (retry_body request row st)"

definition process_retry_queue ::
  "'w client \<Rightarrow> 'b connection \<Rightarrow> 'w \<times> event list \<Rightarrow> 'b connection \<times> nat \<times> 'w \<times> event list" where
  "process_retry_queue request conn s =
     (case retry_loop request (retry_queue (current conn)) (current conn, 0, fst s, snd s) of
        (d, Wallets_moved_missing, w', tr') \<Rightarrow>
          (commit (conn\<lparr>current := d\<rparr>), Wallets_moved_missing, w', tr'))"


section \<open>main (lines 233--251)\<close>

text \<open>
  \<open>main\<close> on the database file \<open>file\<close> and the world \<open>w\<close>. It gives the file as
  the run leaves it, the two counters of the first pass, the counter of the second pass
  when it ran, the world and all events.
\<close>

definition main ::
  "'w client \<Rightarrow> 'b db \<Rightarrow> 'w \<Rightarrow> ('b db \<times> (nat \<times> nat) \<times> nat option \<times> 'w \<times> event list) option" where
  "main request file w =
     (let conn = ensure_tables (connect file) in
      case process_Wallets_table request conn AIRDROP_TABLE False (w, []) of
        None \<Rightarrow> None
      | Some (conn1, (moved_missing, moved_retry), w1, tr1) \<Rightarrow>
          (if moved_retry > 0
           then (case process_retry_queue request conn1 (w1, tr1) of
                   (conn2, moved_missing_2, w2, tr2) \<Rightarrow>
                     Some (durable conn2, (moved_missing, moved_retry), Some moved_missing_2, w2, tr2))
           else Some (durable conn1, (moved_missing, moved_retry), None, w1, tr1)))"


section \<open>Vocabulary of the statements\<close>

subsection \<open>Responses and the order of requests\<close>

text \<open>\<open>response.is_successful()\<close>, false when the request raised.\<close>

fun is_successful :: "response \<Rightarrow> bool" where
  "is_successful (Successful result) = True"
| "is_successful Successful_null = True"
| "is_successful Raised = False"
| "is_successful Unsuccessful = False"

text \<open>The trustline list a response carries; none when \<open>lines\<close> is not a list.\<close>

fun lines_of :: "response \<Rightarrow> line list" where
  "lines_of (Successful (Some lines)) = lines"
| "lines_of (Successful None) = []"
| "lines_of Successful_null = []"
| "lines_of Raised = []"
| "lines_of Unsuccessful = []"

text \<open>
  The Python value \<open>result.get("lines", [])\<close> of a successful answer, the value that
  line 88 returns.
\<close>

fun returned :: "response \<Rightarrow> line list option" where
  "returned (Successful (Some lines)) = Some lines"
| "returned (Successful None) = Some []"
| "returned Successful_null = None"
| "returned Raised = None"
| "returned Unsuccessful = None"

text \<open>
  The answers the network gives when the requests for one wallet are sent to the given
  nodes one after the other, and the world they leave behind.
\<close>

fun replies :: "'w client \<Rightarrow> string \<Rightarrow> string list \<Rightarrow> 'w \<Rightarrow> response list" where
  "replies request Wallet [] w = []"
| "replies request Wallet (node_url # rest) w =
     (case request w node_url Wallet of (r, w') \<Rightarrow> r # replies request Wallet rest w')"

fun world_after :: "'w client \<Rightarrow> string \<Rightarrow> string list \<Rightarrow> 'w \<Rightarrow> 'w" where
  "world_after request Wallet [] w = w"
| "world_after request Wallet (node_url # rest) w =
     world_after request Wallet rest (snd (request w node_url Wallet))"

text \<open>
  The fixed order of all attempts: every node of the list in turn,
  \<open>max_retries_per_node\<close> times each.
\<close>

definition schedule :: "string list \<Rightarrow> string list" where
  "schedule nodes = concat (map (replicate max_retries_per_node) nodes)"

text \<open>The position of the first successful answer, or the length when there is none.\<close>

fun first_success :: "response list \<Rightarrow> nat" where
  "first_success [] = 0"
| "first_success (r # rs) = (if is_successful r then 0 else Suc (first_success rs))"

text \<open>The requests among the events, and the wallets of the calls of \<open>has_trustline\<close>.\<close>

fun requests_of :: "event list \<Rightarrow> (string \<times> string) list" where
  "requests_of [] = []"
| "requests_of (Request node_url Wallet # evs) = (node_url, Wallet) # requests_of evs"
| "requests_of (e # evs) = requests_of evs"

fun classified :: "event list \<Rightarrow> string list" where
  "classified [] = []"
| "classified (Classify Wallet # evs) = Wallet # classified evs"
| "classified (e # evs) = classified evs"

text \<open>
  Two networks that differ at most in the kind of failure: where one raises, the other
  may answer unsuccessfully, and the reverse.
\<close>

definition same_outcome :: "response \<Rightarrow> response \<Rightarrow> bool" where
  "same_outcome r1 r2 = (if is_successful r1 \<or> is_successful r2 then r1 = r2 else True)"

definition same_answers :: "'w client \<Rightarrow> 'w client \<Rightarrow> bool" where
  "same_answers request1 request2 =
     (\<forall>w node_url Wallet.
        same_outcome (fst (request1 w node_url Wallet)) (fst (request2 w node_url Wallet)) \<and>
        snd (request1 w node_url Wallet) = snd (request2 w node_url Wallet))"

definition swap_failures :: "'w client \<Rightarrow> 'w client" where
  "swap_failures request w node_url Wallet =
     (case request w node_url Wallet of
        (Raised, w') \<Rightarrow> (Unsuccessful, w')
      | (Unsuccessful, w') \<Rightarrow> (Raised, w')
      | (Successful result, w') \<Rightarrow> (Successful result, w')
      | (Successful_null, w') \<Rightarrow> (Successful_null, w'))"

subsection \<open>A network given by a script\<close>

text \<open>
  A concrete network for the examples: the world is the list of answers still to come,
  whatever the node and the wallet; when the list is used up every request raises.
\<close>

fun scripted :: "response list client" where
  "scripted [] node_url Wallet = (Raised, [])"
| "scripted (r # rs) node_url Wallet = (r, rs)"


subsection \<open>Tables and verdicts\<close>

text \<open>The rows of a table with the given wallet as key.\<close>

definition rows_of :: "string \<Rightarrow> (string \<times> 'a) list \<Rightarrow> (string \<times> 'a) list" where
  "rows_of Wallet table = filter (\<lambda>r. fst r = Wallet) table"

text \<open>
  The wallets classified one after the other, as the two passes do: the
  verdicts of \<open>has_trustline\<close> in order, the world they leave and the events, with the
  \<open>time.sleep(0.2)\<close> after each call.
\<close>

fun classify_all :: "'w client \<Rightarrow> string list \<Rightarrow> 'w \<Rightarrow> bool option list \<times> 'w \<times> event list" where
  "classify_all request [] w = ([], w, [])"
| "classify_all request (Wallet # rest) w =
     (case has_trustline request Wallet w of
        (v, w', evs) \<Rightarrow>
          (case classify_all request rest w' of
             (vs, w'', evs') \<Rightarrow> (v # vs, w'', evs @ Throttle # evs')))"

definition verdicts :: "'w client \<Rightarrow> string list \<Rightarrow> 'w \<Rightarrow> bool option list" where
  "verdicts request Wallets w = fst (classify_all request Wallets w)"

text \<open>
  What the loop body of \<open>process_Wallets_table\<close> does to the database for one row and
  its verdict: the database component of \<open>wallets_body\<close> (lemma \<open>wallets_body_settle\<close>).
\<close>

fun settle :: "string \<Rightarrow> bool \<Rightarrow> (string \<times> 'b) \<times> bool option \<Rightarrow> 'b db \<Rightarrow> 'b db" where
  "settle table_name second_pass ((Wallet, Balance), Some True) d = d"
| "settle table_name second_pass ((Wallet, Balance), Some False) d =
     delete_from table_name Wallet (insert_or_replace_missing Wallet Balance d)"
| "settle table_name second_pass ((Wallet, Balance), None) d =
     (if second_pass
      then delete_from table_name Wallet (insert_or_replace_missing Wallet Balance d)
      else delete_from table_name Wallet (insert_or_replace_retry Wallet Balance d))"

text \<open>\<open>COALESCE((SELECT tries ...), 0)\<close>.\<close>

definition coalesce_tries :: "'b db \<Rightarrow> string \<Rightarrow> int" where
  "coalesce_tries d Wallet = (case select_tries d Wallet of Some tries \<Rightarrow> tries | None \<Rightarrow> 0)"

subsection \<open>Data of the examples\<close>

definition trustline :: line where
  "trustline = [(''account'', ISSUER_OF_TOKEN), (''currency'', CURRENCY_HEX)]"

definition failed_lookup :: "string \<Rightarrow> event list" where
  "failed_lookup Wallet =
     [Request ''https://xrplcluster.com/'' Wallet, Sleep 2,
      Request ''https://xrplcluster.com/'' Wallet, Sleep 4,
      Request ''https://s2.ripple.com:51234/'' Wallet, Sleep 2,
      Request ''https://s2.ripple.com:51234/'' Wallet, Sleep 4,
      Request ''https://xrpl.link/'' Wallet, Sleep 2,
      Request ''https://xrpl.link/'' Wallet, Sleep 4]"


subsection \<open>The second pass and the states of a run\<close>

text \<open>
  What the loop body of \<open>process_retry_queue\<close> does to the database for one row and its
  verdict: the database component of \<open>retry_body\<close> (lemma \<open>retry_body_settle\<close>).
\<close>

fun retry_settle :: "(string \<times> 'b \<times> int) \<times> bool option \<Rightarrow> 'b db \<Rightarrow> 'b db" where
  "retry_settle ((Wallet, Balance, tries), Some True) d = delete_from RETRY_QUEUE_TABLE Wallet d"
| "retry_settle ((Wallet, Balance, tries), Some False) d =
     delete_from RETRY_QUEUE_TABLE Wallet (insert_or_replace_missing Wallet Balance d)"
| "retry_settle ((Wallet, Balance, tries), None) d =
     delete_from RETRY_QUEUE_TABLE Wallet (insert_or_replace_missing Wallet Balance d)"

text \<open>
  The invariant of the data model: a wallet is the key of at most one row in each table,
  and no wallet is in two tables.
\<close>

definition unique_keys :: "'b db \<Rightarrow> bool" where
  "unique_keys d =
     (distinct (map fst (tokens d)) \<and> distinct (map fst (tokens_missing_tl d))
      \<and> distinct (map fst (retry_queue d)))"

definition exclusive :: "'b db \<Rightarrow> bool" where
  "exclusive d =
     (set (map fst (tokens d)) \<inter> set (map fst (tokens_missing_tl d)) = {}
      \<and> set (map fst (tokens d)) \<inter> set (map fst (retry_queue d)) = {}
      \<and> set (map fst (tokens_missing_tl d)) \<inter> set (map fst (retry_queue d)) = {})"

text \<open>
  The database as the connection sees it before the first iteration of a loop and after
  each iteration; for \<open>main\<close>, the states of the first pass followed by those of the
  second pass when it runs.
\<close>

fun wallets_states ::
  "'w client \<Rightarrow> string \<Rightarrow> bool \<Rightarrow> (string \<times> 'b) list \<Rightarrow> ('b, 'w) wallets_state \<Rightarrow> 'b db list" where
  "wallets_states request table_name second_pass [] st = [fst st]"
| "wallets_states request table_name second_pass (row # rows) st =
     fst st # wallets_states request table_name second_pass rows
                (wallets_body request table_name second_pass row st)"

fun retry_states ::
  "'w client \<Rightarrow> (string \<times> 'b \<times> int) list \<Rightarrow> ('b, 'w) retry_state \<Rightarrow> 'b db list" where
  "retry_states request [] st = [fst st]"
| "retry_states request (row # rows) st = fst st # retry_states request rows (retry_body request row st)"

definition main_states :: "'w client \<Rightarrow> 'b db \<Rightarrow> 'w \<Rightarrow> 'b db list" where
  "main_states request file w =
     wallets_states request AIRDROP_TABLE False (tokens file) (file, 0, 0, w, [])
     @ (case wallets_loop request AIRDROP_TABLE False (tokens file) (file, 0, 0, w, []) of
          (d1, moved_missing, moved_retry, w1, tr1) \<Rightarrow>
            if moved_retry > 0 then retry_states request (retry_queue d1) (d1, 0, w1, tr1) else [])"

text \<open>
  The second pass ran and \<open>has_trustline\<close> answered \<open>Some True\<close> for a row of the
  retry table with this wallet.
\<close>

definition confirmed_on_retry :: "'w client \<Rightarrow> 'b db \<Rightarrow> 'w \<Rightarrow> string \<Rightarrow> bool" where
  "confirmed_on_retry request file w Wallet =
     (case process_Wallets_table request (ensure_tables (connect file)) AIRDROP_TABLE False (w, []) of
        None \<Rightarrow> False
      | Some (conn1, (moved_missing, moved_retry), w1, tr1) \<Rightarrow>
          0 < moved_retry \<and>
          (Wallet, Some True)
            \<in> set (zip (map fst (retry_queue (current conn1)))
                        (verdicts request (map fst (retry_queue (current conn1))) w1)))"


section \<open>The failover engine: lemmas\<close>

lemma requests_of_append: "requests_of (xs @ ys) = requests_of xs @ requests_of ys"
  by (induction xs rule: requests_of.induct) auto

lemma replies_append:
  "replies request W (xs @ ys) w = replies request W xs w @ replies request W ys (world_after request W xs w)"
  by (induction xs arbitrary: w) (auto split: prod.splits)

lemma world_after_append:
  "world_after request W (xs @ ys) w = world_after request W ys (world_after request W xs w)"
  by (induction xs arbitrary: w) auto

lemma length_replies: "length (replies request W xs w) = length xs"
  by (induction xs arbitrary: w) (auto split: prod.splits)

lemma attempt_loop_char:
  "attempt_loop request n W as w =
     (let rs = replies request W (replicate (length as) n) w; k = first_success rs in
      (if k = length as then None else Some (returned (rs ! k)),
       world_after request W (replicate (min (Suc k) (length as)) n) w,
       concat (map (\<lambda>a. [Request n W, Sleep (base_backoff_seconds * a)]) (take k as))
         @ (if k = length as then [] else [Request n W])))"
proof (induction as arbitrary: w)
  case Nil
  show ?case by simp
next
  case (Cons a as)
  obtain r w' where rq: "request w n W = (r, w')" by (cases "request w n W")
  show ?case
  proof (cases r)
    case (Successful res)
    then show ?thesis using rq by (cases res) simp_all
  next
    case Successful_null
    then show ?thesis using rq by simp
  next
    case Raised
    then show ?thesis using rq Cons.IH[of w']
      by (simp add: Let_def length_replies split: prod.splits)
  next
    case Unsuccessful
    then show ?thesis using rq Cons.IH[of w']
      by (simp add: Let_def length_replies split: prod.splits)
  qed
qed


lemma first_success_le: "first_success rs \<le> length rs"
  by (induction rs) auto

lemma first_success_append:
  "first_success (xs @ ys) =
     (if first_success xs = length xs then length xs + first_success ys else first_success xs)"
  by (induction xs) auto

lemma first_success_all: "first_success rs = length rs \<longleftrightarrow> (\<forall>r\<in>set rs. \<not> is_successful r)"
proof (induction rs)
  case Nil show ?case by simp
next
  case (Cons r rs)
  have "first_success rs \<le> length rs" by (rule first_success_le)
  then show ?case using Cons by auto
qed

lemma first_success_index:
  "k < length rs \<Longrightarrow> is_successful (rs ! k) \<Longrightarrow> (\<forall>j<k. \<not> is_successful (rs ! j)) \<Longrightarrow> first_success rs = k"
proof (induction rs arbitrary: k)
  case Nil then show ?case by simp
next
  case (Cons r rs)
  show ?case
  proof (cases k)
    case 0 then show ?thesis using Cons.prems by simp
  next
    case (Suc k')
    have "\<not> is_successful r" using Cons.prems(3) Suc by (metis nth_Cons_0 zero_less_Suc)
    moreover have "first_success rs = k'"
      using Cons.prems Suc by (intro Cons.IH) auto
    ultimately show ?thesis using Suc by simp
  qed
qed

lemma first_success_nth:
  "first_success rs < length rs \<Longrightarrow> is_successful (rs ! first_success rs)"
  by (induction rs) auto

lemma first_success_before:
  "j < first_success rs \<Longrightarrow> \<not> is_successful (rs ! j)"
proof (induction rs arbitrary: j)
  case Nil then show ?case by simp
next
  case (Cons r rs) then show ?case by (cases j) (auto split: if_splits)
qed

lemma schedule_Cons: "schedule (n # ns) = replicate max_retries_per_node n @ schedule ns"
  by (simp add: schedule_def)

lemma length_attempts: "length [1 ..< max_retries_per_node + 1] = max_retries_per_node"
  by simp

lemma node_loop_char:
  "node_loop request W nodes w = (r, w', evs) \<Longrightarrow>
     (let rs = replies request W (schedule nodes) w; k = first_success rs in
        r = (if k = length rs then None else returned (rs ! k)) \<and>
        w' = world_after request W (take (Suc k) (schedule nodes)) w \<and>
        requests_of evs = map (\<lambda>n. (n, W)) (take (Suc k) (schedule nodes)))"
proof (induction nodes arbitrary: w r w' evs)
  case Nil
  then show ?case by (simp add: schedule_def)
next
  case (Cons n ns)
  define m where "m = max_retries_per_node"
  define rs1 where "rs1 = replies request W (replicate m n) w"
  define k1 where "k1 = first_success rs1"
  define w1 where "w1 = world_after request W (replicate m n) w"
  define rs2 where "rs2 = replies request W (schedule ns) w1"
  have len1: "length rs1 = m" by (simp add: rs1_def length_replies)
  have k1le: "k1 \<le> m" using first_success_le[of rs1] len1 by (simp add: k1_def)
  have rs: "replies request W (schedule (n # ns)) w = rs1 @ rs2"
    by (simp add: schedule_Cons replies_append rs1_def rs2_def w1_def m_def)
  have al: "attempt_loop request n W [1 ..< max_retries_per_node + 1] w =
      (if k1 = m then None else Some (returned (rs1 ! k1)),
       world_after request W (replicate (min (Suc k1) m) n) w,
       concat (map (\<lambda>a. [Request n W, Sleep (base_backoff_seconds * a)]) (take k1 [1 ..< max_retries_per_node + 1]))
         @ (if k1 = m then [] else [Request n W]))"
    unfolding attempt_loop_char[of request n W "[1 ..< max_retries_per_node + 1]" w]
    by (simp only: length_attempts Let_def rs1_def k1_def m_def)
  have rq: "requests_of (concat (map (\<lambda>a. [Request n W, Sleep (base_backoff_seconds * a)]) as)) = replicate (length as) (n, W)" for as
    by (induction as) auto
  show ?case
  proof (cases "k1 = m")
    case False
    then have lt: "k1 < m" using k1le by simp
    have res: "r = returned (rs1 ! k1)" "w' = world_after request W (replicate (Suc k1) n) w"
       "evs = concat (map (\<lambda>a. [Request n W, Sleep (base_backoff_seconds * a)]) (take k1 [1 ..< max_retries_per_node + 1])) @ [Request n W]"
      using Cons.prems al False lt by (simp_all add: min_def)
    have fs: "first_success (rs1 @ rs2) = k1"
      using False len1 by (simp add: first_success_append k1_def)
    have tk: "take (Suc k1) (schedule (n # ns)) = replicate (Suc k1) n"
      using lt by (simp add: schedule_Cons m_def min_def)
    have "requests_of evs = replicate (Suc k1) (n, W)"
      using lt by (simp add: res(3) requests_of_append rq m_def min_def replicate_append_same)
    then show ?thesis
      using lt len1 res(1,2) by (simp add: rs fs tk Let_def nth_append)
  next
    case True
    obtain r2 w2 evs2 where nl: "node_loop request W ns w1 = (r2, w2, evs2)"
      by (cases "node_loop request W ns w1") auto
    have al': "attempt_loop request n W [1 ..< max_retries_per_node + 1] w =
       (None, w1, concat (map (\<lambda>a. [Request n W, Sleep (base_backoff_seconds * a)]) [1 ..< max_retries_per_node + 1]))"
      using al True by (simp add: w1_def m_def)
    have res: "r = r2" "w' = w2"
      "evs = concat (map (\<lambda>a. [Request n W, Sleep (base_backoff_seconds * a)]) [1 ..< max_retries_per_node + 1]) @ evs2"
      using Cons.prems al' nl by simp_all
    define k2 where "k2 = first_success rs2"
    have ih: "r2 = (if k2 = length rs2 then None else returned (rs2 ! k2))"
       "w2 = world_after request W (take (Suc k2) (schedule ns)) w1"
       "requests_of evs2 = map (\<lambda>n. (n, W)) (take (Suc k2) (schedule ns))"
      using Cons.IH[OF nl] by (simp_all add: Let_def rs2_def k2_def)
    have fs: "first_success (rs1 @ rs2) = m + k2"
      using True len1 by (simp add: first_success_append k1_def k2_def)
    have tk: "take (Suc (m + k2)) (schedule (n # ns)) = replicate m n @ take (Suc k2) (schedule ns)"
      by (simp add: schedule_Cons m_def)
    have a: "requests_of evs = map (\<lambda>n. (n, W)) (take (Suc (m + k2)) (schedule (n # ns)))"
      unfolding tk by (simp add: ih(3) res(3) requests_of_append rq m_def)
    have b: "w' = world_after request W (take (Suc (m + k2)) (schedule (n # ns))) w"
      unfolding tk by (simp add: res(2) ih(2) world_after_append w1_def)
    have c: "r = (if m + k2 = length (rs1 @ rs2) then None else returned ((rs1 @ rs2) ! (m + k2)))"
      using len1 by (simp add: res(1) ih(1) nth_append)
    show ?thesis
      unfolding Let_def rs fs using a b c by simp
  qed
qed

lemma attempt_loop_same:
  assumes "same_answers request1 request2"
  shows "attempt_loop request1 n W as w = attempt_loop request2 n W as w"
proof (induction as arbitrary: w)
  case Nil show ?case by simp
next
  case (Cons a as)
  obtain r1 w1 where q1: "request1 w n W = (r1, w1)" by (cases "request1 w n W")
  obtain r2 w2 where q2: "request2 w n W = (r2, w2)" by (cases "request2 w n W")
  have so: "same_outcome r1 r2" and ww: "w1 = w2"
    using assms q1 q2 unfolding same_answers_def by (metis fst_conv, metis snd_conv)
  show ?case
  proof (cases "is_successful r1 \<or> is_successful r2")
    case True
    then have "r1 = r2" using so by (simp add: same_outcome_def)
    then show ?thesis using q1 q2 ww Cons.IH[of w2] by (simp split: response.splits)
  next
    case False
    have "r1 \<in> {Raised, Unsuccessful}" using False by (cases r1) simp_all
    moreover have "r2 \<in> {Raised, Unsuccessful}" using False by (cases r2) simp_all
    ultimately show ?thesis using q1 q2 ww Cons.IH[of w2] by auto
  qed
qed

lemma node_loop_same:
  assumes "same_answers request1 request2"
  shows "node_loop request1 W nodes w = node_loop request2 W nodes w"
proof (induction nodes arbitrary: w)
  case Nil show ?case by simp
next
  case (Cons n ns)
  show ?case
    unfolding node_loop.simps attempt_loop_same[OF assms] using Cons.IH
    by (simp split: prod.splits option.splits)
qed

lemma same_answers_swap: "same_answers request (swap_failures request)"
  unfolding same_answers_def swap_failures_def same_outcome_def
  by (auto split: prod.splits response.splits)

lemma schedule_NODES:
  "schedule NODES =
     [''https://xrplcluster.com/'', ''https://xrplcluster.com/'',
      ''https://s2.ripple.com:51234/'', ''https://s2.ripple.com:51234/'',
      ''https://xrpl.link/'', ''https://xrpl.link/'']"
  by (simp add: schedule_def NODES_def max_retries_per_node_def numeral_2_eq_2)

lemma scan_lines_iff:
  "scan_lines ls \<longleftrightarrow>
     (\<exists>l\<in>set ls. map_of l ''account'' = Some ISSUER_OF_TOKEN \<and> map_of l ''currency'' = Some CURRENCY_HEX)"
  by (induction ls) auto

text \<open>
  The engine against the answers to the fixed order of attempts: when none is successful
  it returns \<open>None\<close> after all requests; when the first successful answer is at
  position \<open>k\<close> it returns the value of that answer after exactly \<open>k + 1\<close>
  requests; and the kind of a failure makes no difference.
\<close>

lemma fetch_first_success:
  fixes request :: "'w client"
  assumes "fetch_trustlines_with_failover request Wallet w = (r, w', evs)"
  shows "((\<forall>x\<in>set (replies request Wallet (schedule NODES) w). \<not> is_successful x) \<longrightarrow>
            r = None \<and> requests_of evs = map (\<lambda>n. (n, Wallet)) (schedule NODES))
       \<and> (\<forall>k<length (schedule NODES).
             is_successful (replies request Wallet (schedule NODES) w ! k) \<and>
             (\<forall>j<k. \<not> is_successful (replies request Wallet (schedule NODES) w ! j)) \<longrightarrow>
               r = returned (replies request Wallet (schedule NODES) w ! k) \<and>
               w' = world_after request Wallet (take (Suc k) (schedule NODES)) w \<and>
               requests_of evs = map (\<lambda>n. (n, Wallet)) (take (Suc k) (schedule NODES)))
       \<and> (\<forall>request'. same_answers request request' \<longrightarrow>
             fetch_trustlines_with_failover request' Wallet w = (r, w', evs))"
proof -
  define rs where "rs = replies request Wallet (schedule NODES) w"
  define k0 where "k0 = first_success rs"
  have nl: "node_loop request Wallet NODES w = (r, w', evs)"
    using assms by (simp add: fetch_trustlines_with_failover_def)
  have ch: "r = (if k0 = length rs then None else returned (rs ! k0))"
     "w' = world_after request Wallet (take (Suc k0) (schedule NODES)) w"
     "requests_of evs = map (\<lambda>n. (n, Wallet)) (take (Suc k0) (schedule NODES))"
    using node_loop_char[OF nl] by (simp_all add: Let_def rs_def k0_def)
  have len: "length rs = length (schedule NODES)" by (simp add: rs_def length_replies)
  have 1: "r = None \<and> requests_of evs = map (\<lambda>n. (n, Wallet)) (schedule NODES)"
    if "\<forall>x\<in>set rs. \<not> is_successful x"
  proof -
    have "k0 = length rs" using that first_success_all[of rs] by (simp add: k0_def)
    then show ?thesis using ch(1,3) len by simp
  qed
  have 3: "r = returned (rs ! k) \<and>
           w' = world_after request Wallet (take (Suc k) (schedule NODES)) w \<and>
           requests_of evs = map (\<lambda>n. (n, Wallet)) (take (Suc k) (schedule NODES))"
    if "k < length (schedule NODES)" "is_successful (rs ! k)" "\<forall>j<k. \<not> is_successful (rs ! j)" for k
  proof -
    have "k0 = k" unfolding k0_def using that len by (intro first_success_index) auto
    then show ?thesis using ch that(1) len by simp
  qed
  have 4: "fetch_trustlines_with_failover request' Wallet w = (r, w', evs)"
    if "same_answers request request'" for request'
    using node_loop_same[OF that, of Wallet NODES w] nl by (simp add: fetch_trustlines_with_failover_def)
  show ?thesis using 1 3 4 unfolding rs_def by blast
qed


section \<open>The first pass: lemmas\<close>

lemma length_classify_all: "length (fst (classify_all request Ws w)) = length Ws"
proof (induction Ws arbitrary: w)
  case Nil show ?case by simp
next
  case (Cons W Ws)
  obtain v w1 evs1 where ht: "has_trustline request W w = (v, w1, evs1)"
    by (cases "has_trustline request W w")
  show ?case using Cons.IH[of w1] ht by (auto split: prod.splits)
qed

lemma length_verdicts: "length (verdicts request Ws w) = length Ws"
  by (simp add: verdicts_def length_classify_all)

lemma wallets_body_settle:
  "has_trustline request W w = (v, w', evs) \<Longrightarrow>
   wallets_body request t sp (W, B) (d, mm, mr, w, tr) =
     (settle t sp ((W, B), v) d,
      mm + (if v = Some False \<or> (v = None \<and> sp) then 1 else 0),
      mr + (if v = None \<and> \<not> sp then 1 else 0),
      w', tr @ evs @ [Throttle])"
  by (cases v) (auto split: option.splits bool.splits)

lemma wallets_loop_char:
  "classify_all request (map fst rows) w = (vs, w', evs) \<Longrightarrow>
   wallets_loop request t sp rows (d, mm, mr, w, tr) =
     (fold (settle t sp) (zip rows vs) d,
      mm + length (filter (\<lambda>v. v = Some False \<or> (v = None \<and> sp)) vs),
      mr + length (filter (\<lambda>v. v = None \<and> \<not> sp) vs),
      w', tr @ evs)"
proof (induction rows arbitrary: d mm mr w tr vs w' evs)
  case Nil
  then show ?case by simp
next
  case (Cons row rows)
  obtain W B where row: "row = (W, B)" by (cases row)
  obtain v w1 evs1 where ht: "has_trustline request W w = (v, w1, evs1)"
    by (cases "has_trustline request W w")
  obtain vs2 w2 evs2 where ca: "classify_all request (map fst rows) w1 = (vs2, w2, evs2)"
    by (cases "classify_all request (map fst rows) w1")
  have eqs: "vs = v # vs2" "w' = w2" "evs = evs1 @ Throttle # evs2"
    using Cons.prems row ht ca by simp_all
  show ?case
    unfolding row wallets_loop.simps wallets_body_settle[OF ht] Cons.IH[OF ca] eqs
    by simp
qed

lemma table_names_distinct:
  "AIRDROP_TABLE \<noteq> MISSING_TL_TABLE" "AIRDROP_TABLE \<noteq> RETRY_QUEUE_TABLE"
  "MISSING_TL_TABLE \<noteq> RETRY_QUEUE_TABLE" "MISSING_TL_TABLE \<noteq> AIRDROP_TABLE"
  "RETRY_QUEUE_TABLE \<noteq> AIRDROP_TABLE" "RETRY_QUEUE_TABLE \<noteq> MISSING_TL_TABLE"
  by (simp_all add: AIRDROP_TABLE_def MISSING_TL_TABLE_def RETRY_QUEUE_TABLE_def)

lemma settle_airdrop_tokens:
  "tokens (settle AIRDROP_TABLE False ((W, B), v) d) =
     (if v = Some True then tokens d else filter (\<lambda>r. fst r \<noteq> W) (tokens d))"
  by (cases "((AIRDROP_TABLE, False, ((W, B), v), d))" rule: settle.cases)
     (auto simp: delete_from_def insert_or_replace_missing_def insert_or_replace_retry_def)

lemma settle_airdrop_missing:
  "tokens_missing_tl (settle AIRDROP_TABLE False ((W, B), v) d) =
     (if v = Some False then filter (\<lambda>r. fst r \<noteq> W) (tokens_missing_tl d) @ [(W, B)]
      else tokens_missing_tl d)"
  by (cases "((AIRDROP_TABLE, False, ((W, B), v), d))" rule: settle.cases)
     (auto simp: delete_from_def insert_or_replace_missing_def insert_or_replace_retry_def)

lemma settle_airdrop_retry:
  "retry_queue (settle AIRDROP_TABLE False ((W, B), v) d) =
     (if v = None then filter (\<lambda>r. fst r \<noteq> W) (retry_queue d) @ [(W, B, coalesce_tries d W)]
      else retry_queue d)"
  by (cases "((AIRDROP_TABLE, False, ((W, B), v), d))" rule: settle.cases)
     (auto simp: delete_from_def insert_or_replace_missing_def insert_or_replace_retry_def coalesce_tries_def)

lemma rows_of_filter_other: "W' \<noteq> W \<Longrightarrow> rows_of W (filter (\<lambda>r. fst r \<noteq> W') t) = rows_of W t"
  unfolding rows_of_def by (induction t) auto

lemma rows_of_filter_self: "rows_of W (filter (\<lambda>r. fst r \<noteq> W) t) = []"
  unfolding rows_of_def by (induction t) auto

lemma rows_of_append: "rows_of W (xs @ ys) = rows_of W xs @ rows_of W ys"
  by (simp add: rows_of_def)

lemma rows_of_single: "rows_of W [(W', x)] = (if W' = W then [(W', x)] else [])"
  by (simp add: rows_of_def)

lemma select_tries_rows_of:
  "select_tries d W = (case rows_of W (retry_queue d) of [] \<Rightarrow> None | (W', B, t) # rest \<Rightarrow> Some t)"
proof -
  have "find (\<lambda>r. fst r = W) t = (case filter (\<lambda>r. fst r = W) t of [] \<Rightarrow> None | r # rest \<Rightarrow> Some r)" for t :: "(string \<times> 'a \<times> int) list"
    by (induction t) auto
  then show ?thesis
    by (auto simp: select_tries_def rows_of_def split: list.splits option.splits)
qed

lemma settle_airdrop_other:
  assumes "W' \<noteq> W"
  shows "rows_of W (tokens (settle AIRDROP_TABLE False ((W', B), v) d)) = rows_of W (tokens d)"
    "rows_of W (tokens_missing_tl (settle AIRDROP_TABLE False ((W', B), v) d)) = rows_of W (tokens_missing_tl d)"
    "rows_of W (retry_queue (settle AIRDROP_TABLE False ((W', B), v) d)) = rows_of W (retry_queue d)"
  using assms
  by (simp_all add: settle_airdrop_tokens settle_airdrop_missing settle_airdrop_retry
        rows_of_filter_other rows_of_append rows_of_single)

lemma settle_airdrop_self:
  "rows_of W (tokens (settle AIRDROP_TABLE False ((W, B), v) d)) =
     (if v = Some True then rows_of W (tokens d) else [])"
  "rows_of W (tokens_missing_tl (settle AIRDROP_TABLE False ((W, B), v) d)) =
     (if v = Some False then [(W, B)] else rows_of W (tokens_missing_tl d))"
  "rows_of W (retry_queue (settle AIRDROP_TABLE False ((W, B), v) d)) =
     (if v = None then [(W, B, coalesce_tries d W)] else rows_of W (retry_queue d))"
  by (simp_all add: settle_airdrop_tokens settle_airdrop_missing settle_airdrop_retry
        rows_of_filter_self rows_of_append rows_of_single)

lemma fold_settle_frame:
  assumes "W \<notin> fst ` fst ` set pairs"
  shows "rows_of W (tokens (fold (settle AIRDROP_TABLE False) pairs d)) = rows_of W (tokens d)
       \<and> rows_of W (tokens_missing_tl (fold (settle AIRDROP_TABLE False) pairs d)) = rows_of W (tokens_missing_tl d)
       \<and> rows_of W (retry_queue (fold (settle AIRDROP_TABLE False) pairs d)) = rows_of W (retry_queue d)"
  using assms
proof (induction pairs arbitrary: d)
  case Nil show ?case by simp
next
  case (Cons p pairs)
  obtain W' B v where p: "p = ((W', B), v)" by (cases p) auto
  have ne: "W' \<noteq> W" using Cons.prems p by auto
  have "W \<notin> fst ` fst ` set pairs" using Cons.prems by auto
  from Cons.IH[OF this, of "settle AIRDROP_TABLE False p d"]
  show ?case unfolding p by (simp add: settle_airdrop_other[OF ne])
qed

lemma fold_settle_effect:
  assumes "distinct (map (fst \<circ> fst) pairs)" "((W, B), v) \<in> set pairs"
  shows "rows_of W (tokens (fold (settle AIRDROP_TABLE False) pairs d)) =
           (if v = Some True then rows_of W (tokens d) else [])
       \<and> rows_of W (tokens_missing_tl (fold (settle AIRDROP_TABLE False) pairs d)) =
           (if v = Some False then [(W, B)] else rows_of W (tokens_missing_tl d))
       \<and> rows_of W (retry_queue (fold (settle AIRDROP_TABLE False) pairs d)) =
           (if v = None then [(W, B, coalesce_tries d W)] else rows_of W (retry_queue d))"
  using assms
proof (induction pairs arbitrary: d)
  case Nil then show ?case by simp
next
  case (Cons p pairs)
  show ?case
  proof (cases "p = ((W, B), v)")
    case True
    have "W \<notin> fst ` fst ` set pairs" using Cons.prems(1) True by (auto simp: image_iff)
    from fold_settle_frame[OF this, of "settle AIRDROP_TABLE False p d"]
    show ?thesis unfolding True by (simp add: settle_airdrop_self)
  next
    case False
    obtain W' B' v' where p: "p = ((W', B'), v')" by (cases p) auto
    have mem: "((W, B), v) \<in> set pairs" using Cons.prems(2) False by simp
    have ne: "W' \<noteq> W" using Cons.prems(1) mem p by (auto simp: image_iff)
    have d: "distinct (map (fst \<circ> fst) pairs)" using Cons.prems(1) by (simp add: comp_def)
    have ct: "coalesce_tries (settle AIRDROP_TABLE False p d) W = coalesce_tries d W"
      unfolding coalesce_tries_def select_tries_rows_of p settle_airdrop_other(3)[OF ne] ..
    from Cons.IH[OF d mem, of "settle AIRDROP_TABLE False p d"]
    show ?thesis unfolding p by (simp add: settle_airdrop_other[OF ne] ct[unfolded p])
  qed
qed

lemma process_Wallets_table_airdrop:
  assumes "classify_all request (map fst (tokens (current conn))) w = (vs, w', evs)"
  shows "process_Wallets_table request conn AIRDROP_TABLE False (w, tr) =
     Some (\<lparr>durable = fold (settle AIRDROP_TABLE False) (zip (tokens (current conn)) vs) (current conn),
            current = fold (settle AIRDROP_TABLE False) (zip (tokens (current conn)) vs) (current conn)\<rparr>,
           (length (filter (\<lambda>v. v = Some False) vs), length (filter (\<lambda>v. v = None) vs)),
           w', tr @ evs)"
  by (simp add: process_Wallets_table_def select_wallet_balance_def wallets_loop_char[OF assms] commit_def)

lemmas eval_defs = process_Wallets_table_def select_wallet_balance_def connect_def commit_def
     has_trustline_def fetch_trustlines_with_failover_def NODES_def max_retries_per_node_def
     base_backoff_seconds_def upt_rec trustline_def delete_from_def insert_or_replace_missing_def
     insert_or_replace_retry_def select_tries_def AIRDROP_TABLE_def MISSING_TL_TABLE_def RETRY_QUEUE_TABLE_def
     ISSUER_OF_TOKEN_def CURRENCY_HEX_def failed_lookup_def

lemma first_attempt_success:
  assumes "request w (hd NODES) Wallet = (Successful result, w')"
  shows "fetch_trustlines_with_failover request Wallet w =
           (Some (lines_of (Successful result)), w', [Request (hd NODES) Wallet])"
  using assms
  by (cases result) (simp_all add: fetch_trustlines_with_failover_def NODES_def max_retries_per_node_def upt_rec)

lemma classify_all_take:
  "fst (classify_all request (take k Ws) w) = take k (fst (classify_all request Ws w))"
proof (induction Ws arbitrary: k w)
  case Nil show ?case by simp
next
  case (Cons W Ws)
  obtain v w1 evs1 where ht: "has_trustline request W w = (v, w1, evs1)"
    by (cases "has_trustline request W w")
  show ?case
  proof (cases k)
    case 0 then show ?thesis by simp
  next
    case (Suc k')
    show ?thesis using Cons.IH[of k' w1] ht Suc by (auto split: prod.splits)
  qed
qed

lemma wallets_loop_append:
  "wallets_loop request t sp (xs @ ys) st = wallets_loop request t sp ys (wallets_loop request t sp xs st)"
  by (induction xs arbitrary: st) auto

lemma wallets_loop_db:
  "fst (wallets_loop request t sp rows (d, mm, mr, w, tr)) =
     fold (settle t sp) (zip rows (verdicts request (map fst rows) w)) d"
proof -
  obtain vs w' evs where ca: "classify_all request (map fst rows) w = (vs, w', evs)"
    by (cases "classify_all request (map fst rows) w")
  show ?thesis by (simp add: wallets_loop_char[OF ca] verdicts_def ca)
qed


section \<open>The second pass and the invariant: lemmas\<close>

lemma retry_body_settle:
  "has_trustline request W w = (v, w', evs) \<Longrightarrow>
   retry_body request (W, B, t) (d, mm, w, tr) =
     (retry_settle ((W, B, t), v) d, mm + (if v = Some True then 0 else 1), w', tr @ evs @ [Throttle])"
  by (cases v) (auto split: option.splits bool.splits)

lemma retry_loop_char:
  "classify_all request (map fst rows) w = (vs, w', evs) \<Longrightarrow>
   retry_loop request rows (d, mm, w, tr) =
     (fold retry_settle (zip rows vs) d,
      mm + length (filter (\<lambda>v. v \<noteq> Some True) vs), w', tr @ evs)"
proof (induction rows arbitrary: d mm w tr vs w' evs)
  case Nil
  then show ?case by simp
next
  case (Cons row rows)
  obtain W B t where row: "row = (W, B, t)" by (cases row)
  obtain v w1 evs1 where ht: "has_trustline request W w = (v, w1, evs1)"
    by (cases "has_trustline request W w")
  obtain vs2 w2 evs2 where ca: "classify_all request (map fst rows) w1 = (vs2, w2, evs2)"
    by (cases "classify_all request (map fst rows) w1")
  have eqs: "vs = v # vs2" "w' = w2" "evs = evs1 @ Throttle # evs2"
    using Cons.prems row ht ca by simp_all
  show ?case
    unfolding row retry_loop.simps retry_body_settle[OF ht] Cons.IH[OF ca] eqs
    by simp
qed

lemma retry_settle_tokens: "tokens (retry_settle ((W, B, t), v) d) = tokens d"
  by (cases "(((W, B, t), v), d)" rule: retry_settle.cases)
     (auto simp: delete_from_def insert_or_replace_missing_def table_names_distinct)

lemma retry_settle_retry:
  "retry_queue (retry_settle ((W, B, t), v) d) = filter (\<lambda>r. fst r \<noteq> W) (retry_queue d)"
  by (cases "(((W, B, t), v), d)" rule: retry_settle.cases)
     (auto simp: delete_from_def insert_or_replace_missing_def table_names_distinct)

lemma retry_settle_missing:
  "tokens_missing_tl (retry_settle ((W, B, t), v) d) =
     (if v = Some True then tokens_missing_tl d
      else filter (\<lambda>r. fst r \<noteq> W) (tokens_missing_tl d) @ [(W, B)])"
  by (cases "(((W, B, t), v), d)" rule: retry_settle.cases)
     (auto simp: delete_from_def insert_or_replace_missing_def table_names_distinct)

lemma fold_retry_tokens: "tokens (fold retry_settle pairs d) = tokens d"
proof (induction pairs arbitrary: d)
  case Nil show ?case by simp
next
  case (Cons p pairs)
  obtain W B t v where p: "p = ((W, B, t), v)" by (cases p) auto
  show ?case unfolding p using Cons.IH by (simp add: retry_settle_tokens del: retry_settle.simps)
qed

lemma fold_retry_retry:
  "retry_queue (fold retry_settle pairs d) =
     filter (\<lambda>r. fst r \<notin> fst ` fst ` set pairs) (retry_queue d)"
proof (induction pairs arbitrary: d)
  case Nil show ?case by simp
next
  case (Cons p pairs)
  obtain W B t v where p: "p = ((W, B, t), v)" by (cases p) auto
  show ?case unfolding p using Cons.IH
    by (simp add: retry_settle_retry del: retry_settle.simps)
qed

lemma fold_retry_empties:
  assumes "length vs = length (retry_queue d)"
  shows "retry_queue (fold retry_settle (zip (retry_queue d) vs) d) = []"
proof -
  have "fst ` fst ` set (zip (retry_queue d) vs) = fst ` set (retry_queue d)"
    using assms by (metis map_fst_zip set_map)
  then show ?thesis
    unfolding fold_retry_retry by (auto simp: filter_empty_conv)
qed


lemma retry_settle_other:
  assumes "W' \<noteq> W"
  shows "rows_of W (tokens_missing_tl (retry_settle ((W', B, t), v) d)) = rows_of W (tokens_missing_tl d)"
    "rows_of W (retry_queue (retry_settle ((W', B, t), v) d)) = rows_of W (retry_queue d)"
  using assms
  by (simp_all add: retry_settle_missing retry_settle_retry
        rows_of_filter_other rows_of_append rows_of_single del: retry_settle.simps)

lemma retry_settle_self:
  "rows_of W (tokens_missing_tl (retry_settle ((W, B, t), v) d)) =
     (if v = Some True then rows_of W (tokens_missing_tl d) else [(W, B)])"
  "rows_of W (retry_queue (retry_settle ((W, B, t), v) d)) = []"
  by (simp_all add: retry_settle_missing retry_settle_retry
        rows_of_filter_self rows_of_append rows_of_single del: retry_settle.simps)

lemma fold_retry_frame:
  assumes "W \<notin> fst ` fst ` set pairs"
  shows "rows_of W (tokens_missing_tl (fold retry_settle pairs d)) = rows_of W (tokens_missing_tl d)
       \<and> rows_of W (retry_queue (fold retry_settle pairs d)) = rows_of W (retry_queue d)"
  using assms
proof (induction pairs arbitrary: d)
  case Nil show ?case by simp
next
  case (Cons p pairs)
  obtain W' B t v where p: "p = ((W', B, t), v)" by (cases p) auto
  have ne: "W' \<noteq> W" using Cons.prems p by auto
  have "W \<notin> fst ` fst ` set pairs" using Cons.prems by auto
  from Cons.IH[OF this, of "retry_settle p d"]
  show ?case unfolding p by (simp add: retry_settle_other[OF ne] del: retry_settle.simps)
qed

lemma fold_retry_effect:
  assumes "distinct (map (fst \<circ> fst) pairs)" "((W, B, t), v) \<in> set pairs"
  shows "rows_of W (tokens_missing_tl (fold retry_settle pairs d)) =
           (if v = Some True then rows_of W (tokens_missing_tl d) else [(W, B)])"
  using assms
proof (induction pairs arbitrary: d)
  case Nil then show ?case by simp
next
  case (Cons p pairs)
  show ?case
  proof (cases "p = ((W, B, t), v)")
    case True
    have "W \<notin> fst ` fst ` set pairs" using Cons.prems(1) True by (auto simp: image_iff)
    from fold_retry_frame[OF this, of "retry_settle p d"]
    show ?thesis unfolding True by (simp add: retry_settle_self del: retry_settle.simps)
  next
    case False
    obtain W' B' t' v' where p: "p = ((W', B', t'), v')" by (cases p) auto
    have mem: "((W, B, t), v) \<in> set pairs" using Cons.prems(2) False by simp
    have ne: "W' \<noteq> W" using Cons.prems(1) mem p by (auto simp: image_iff)
    have d: "distinct (map (fst \<circ> fst) pairs)" using Cons.prems(1) by (simp add: comp_def)
    from Cons.IH[OF d mem, of "retry_settle p d"]
    show ?thesis unfolding p by (simp add: retry_settle_other[OF ne] del: retry_settle.simps)
  qed
qed

lemma classified_append: "classified (xs @ ys) = classified xs @ classified ys"
  by (induction xs rule: classified.induct) auto

lemma classified_attempt_loop:
  "attempt_loop request n W as w = (r, w', evs) \<Longrightarrow> classified evs = []"
proof (induction as arbitrary: w r w' evs)
  case Nil then show ?case by simp
next
  case (Cons a as)
  obtain x w1 where rq: "request w n W = (x, w1)" by (cases "request w n W")
  obtain r2 w2 evs2 where al: "attempt_loop request n W as w1 = (r2, w2, evs2)"
    by (cases "attempt_loop request n W as w1")
  show ?case using Cons.prems rq al Cons.IH[OF al] by (cases x) auto
qed

lemma classified_node_loop:
  "node_loop request W nodes w = (r, w', evs) \<Longrightarrow> classified evs = []"
proof (induction nodes arbitrary: w r w' evs)
  case Nil then show ?case by simp
next
  case (Cons n ns)
  obtain r1 w1 evs1 where al: "attempt_loop request n W [1 ..< max_retries_per_node + 1] w = (r1, w1, evs1)"
    by (cases "attempt_loop request n W [1 ..< max_retries_per_node + 1] w")
  obtain r2 w2 evs2 where nl: "node_loop request W ns w1 = (r2, w2, evs2)"
    by (cases "node_loop request W ns w1")
  have "evs = evs1 \<or> evs = evs1 @ evs2"
    using Cons.prems al nl by (cases r1) (auto simp del: upt_Suc)
  then show ?case
    using classified_attempt_loop[OF al] Cons.IH[OF nl] by (auto simp: classified_append)
qed

lemma classified_has_trustline:
  "has_trustline request W w = (v, w', evs) \<Longrightarrow> classified evs = [W]"
proof -
  assume a: "has_trustline request W w = (v, w', evs)"
  obtain r w1 evs1 where nl: "node_loop request W NODES w = (r, w1, evs1)"
    by (cases "node_loop request W NODES w")
  have "evs = Classify W # evs1"
    using a nl by (cases r) (auto simp: has_trustline_def fetch_trustlines_with_failover_def)
  then show ?thesis using classified_node_loop[OF nl] by simp
qed

lemma classified_classify_all:
  "classify_all request Ws w = (vs, w', evs) \<Longrightarrow> classified evs = Ws"
proof (induction Ws arbitrary: w vs w' evs)
  case Nil then show ?case by simp
next
  case (Cons W Ws)
  obtain v w1 evs1 where ht: "has_trustline request W w = (v, w1, evs1)"
    by (cases "has_trustline request W w")
  obtain vs2 w2 evs2 where ca: "classify_all request Ws w1 = (vs2, w2, evs2)"
    by (cases "classify_all request Ws w1")
  have "evs = evs1 @ Throttle # evs2" using Cons.prems ht ca by simp
  then show ?case
    using classified_has_trustline[OF ht] Cons.IH[OF ca] by (simp add: classified_append)
qed

lemma process_retry_queue_char:
  assumes "classify_all request (map fst (retry_queue (current conn))) w = (vs, w', evs)"
  shows "process_retry_queue request conn (w, tr) =
     (\<lparr>durable = fold retry_settle (zip (retry_queue (current conn)) vs) (current conn),
        current = fold retry_settle (zip (retry_queue (current conn)) vs) (current conn)\<rparr>,
      length (filter (\<lambda>v. v \<noteq> Some True) vs), w', tr @ evs)"
  by (simp add: process_retry_queue_def retry_loop_char[OF assms] commit_def)

lemma distinct_count_le_1: "distinct xs \<Longrightarrow> count_list xs x \<le> 1"
  by (induction xs) auto

lemma settle_airdrop_distinct_retry:
  "distinct (map fst (retry_queue d)) \<Longrightarrow>
   distinct (map fst (retry_queue (settle AIRDROP_TABLE False ((W, B), v) d)))"
  by (auto simp: settle_airdrop_retry distinct_map_filter simp del: settle.simps)

lemma fold_settle_distinct_retry:
  "distinct (map fst (retry_queue d)) \<Longrightarrow>
   distinct (map fst (retry_queue (fold (settle AIRDROP_TABLE False) pairs d)))"
proof (induction pairs arbitrary: d)
  case Nil then show ?case by simp
next
  case (Cons p pairs)
  obtain W B v where p: "p = ((W, B), v)" by (cases p) auto
  show ?case unfolding p using Cons.IH[OF settle_airdrop_distinct_retry[OF Cons.prems]]
    by (simp del: settle.simps)
qed

lemma keys_filter: "fst ` set (filter (\<lambda>r. fst r \<noteq> W) t) = fst ` set t - {W}"
  by auto

lemma in_keys_rows_of: "W \<in> fst ` set t \<longleftrightarrow> rows_of W t \<noteq> []"
  by (auto simp: rows_of_def filter_empty_conv)

lemma settle_airdrop_inv:
  assumes "exclusive d" "unique_keys d" "W \<notin> fst ` set (tokens_missing_tl d)" "W \<notin> fst ` set (retry_queue d)"
  shows "exclusive (settle AIRDROP_TABLE False ((W, B), v) d)
       \<and> unique_keys (settle AIRDROP_TABLE False ((W, B), v) d)"
  using assms
  unfolding exclusive_def unique_keys_def settle_airdrop_tokens settle_airdrop_missing settle_airdrop_retry
  by (auto simp: distinct_map_filter)

lemma settle_airdrop_keys_grow:
  "fst ` set (tokens_missing_tl (settle AIRDROP_TABLE False ((W, B), v) d)) \<subseteq> insert W (fst ` set (tokens_missing_tl d))"
  "fst ` set (retry_queue (settle AIRDROP_TABLE False ((W, B), v) d)) \<subseteq> insert W (fst ` set (retry_queue d))"
  unfolding settle_airdrop_missing settle_airdrop_retry by auto

lemma wallets_states_inv:
  assumes "exclusive d" "unique_keys d" "distinct (map fst rows)"
    "fst ` set rows \<inter> (fst ` set (tokens_missing_tl d) \<union> fst ` set (retry_queue d)) = {}"
  shows "\<forall>d' \<in> set (wallets_states request AIRDROP_TABLE False rows (d, mm, mr, w, tr)).
           exclusive d' \<and> unique_keys d'"
  using assms
proof (induction rows arbitrary: d mm mr w tr)
  case Nil then show ?case by simp
next
  case (Cons row rows)
  obtain W B where row: "row = (W, B)" by (cases row)
  obtain v w1 evs1 where ht: "has_trustline request W w = (v, w1, evs1)"
    by (cases "has_trustline request W w")
  define d1 where "d1 = settle AIRDROP_TABLE False ((W, B), v) d"
  have nm: "W \<notin> fst ` set (tokens_missing_tl d)" and nr: "W \<notin> fst ` set (retry_queue d)"
    using Cons.prems(4) row by auto
  have i1: "exclusive d1" "unique_keys d1"
    using settle_airdrop_inv[OF Cons.prems(1,2) nm nr, of B v] by (simp_all add: d1_def)
  have dr: "distinct (map fst rows)" and nW: "W \<notin> fst ` set rows"
    using Cons.prems(3) row by (auto simp: image_iff)
  have dj0: "fst ` set rows \<inter> (fst ` set (tokens_missing_tl d) \<union> fst ` set (retry_queue d)) = {}"
    using Cons.prems(4) by auto
  have dj: "fst ` set rows \<inter> (fst ` set (tokens_missing_tl d1) \<union> fst ` set (retry_queue d1)) = {}"
  proof -
    define K where "K = fst ` set rows"
    define M where "M = fst ` set (tokens_missing_tl d)"
    define R where "R = fst ` set (retry_queue d)"
    define M1 where "M1 = fst ` set (tokens_missing_tl d1)"
    define R1 where "R1 = fst ` set (retry_queue d1)"
    have "K \<inter> (M \<union> R) = {}" "W \<notin> K" "M1 \<subseteq> insert W M" "R1 \<subseteq> insert W R"
      using dj0 nW settle_airdrop_keys_grow[of W B v d]
      by (simp_all add: K_def M_def R_def M1_def R1_def d1_def)
    then have "K \<inter> (M1 \<union> R1) = {}" by blast
    then show ?thesis by (simp add: K_def M1_def R1_def)
  qed
  note ih = Cons.IH[OF i1 dr dj]
  show ?case
    unfolding row wallets_states.simps wallets_body_settle[OF ht] d1_def[symmetric]
    using Cons.prems(1,2) ih by simp
qed

lemma retry_settle_inv:
  assumes "exclusive d" "unique_keys d" "W \<notin> fst ` set (tokens d)"
  shows "exclusive (retry_settle ((W, B, t), v) d) \<and> unique_keys (retry_settle ((W, B, t), v) d)"
  using assms
  unfolding exclusive_def unique_keys_def retry_settle_tokens retry_settle_missing retry_settle_retry
  by (auto simp: distinct_map_filter)

lemma retry_states_inv:
  assumes "exclusive d" "unique_keys d" "fst ` set rows \<inter> fst ` set (tokens d) = {}"
  shows "\<forall>d' \<in> set (retry_states request rows (d, mm, w, tr)). exclusive d' \<and> unique_keys d'"
  using assms
proof (induction rows arbitrary: d mm w tr)
  case Nil then show ?case by simp
next
  case (Cons row rows)
  obtain W B t where row: "row = (W, B, t)" by (cases row)
  obtain v w1 evs1 where ht: "has_trustline request W w = (v, w1, evs1)"
    by (cases "has_trustline request W w")
  define d1 where "d1 = retry_settle ((W, B, t), v) d"
  have nt: "W \<notin> fst ` set (tokens d)" using Cons.prems(3) row by auto
  have i1: "exclusive d1" "unique_keys d1"
    using retry_settle_inv[OF Cons.prems(1,2) nt, of B t v] by (simp_all add: d1_def)
  have dj: "fst ` set rows \<inter> fst ` set (tokens d1) = {}"
    using Cons.prems(3) by (auto simp: d1_def retry_settle_tokens simp del: retry_settle.simps)
  note ih = Cons.IH[OF i1 dj]
  show ?case
    unfolding row retry_states.simps retry_body_settle[OF ht] d1_def[symmetric]
    using Cons.prems(1,2) ih by simp
qed

lemma wallets_states_last:
  "wallets_states request t sp rows st \<noteq> [] \<and>
   hd (wallets_states request t sp rows st) = fst st \<and>
   last (wallets_states request t sp rows st) = fst (wallets_loop request t sp rows st)"
  by (induction rows arbitrary: st) (auto)

lemma retry_states_last:
  "retry_states request rows st \<noteq> [] \<and>
   hd (retry_states request rows st) = fst st \<and>
   last (retry_states request rows st) = fst (retry_loop request rows st)"
  by (induction rows arbitrary: st) (auto)

lemma zip_member_left:
  assumes "length vs = length rows" "r \<in> set rows"
  shows "\<exists>v. (r, v) \<in> set (zip rows vs)"
proof -
  obtain i where i: "i < length rows" "rows ! i = r" using assms(2) by (auto simp: in_set_conv_nth)
  then have "(rows ! i, vs ! i) \<in> set (zip rows vs)"
    using assms(1) by (metis length_zip min.idem nth_mem nth_zip)
  then show ?thesis using i by auto
qed

lemma None_counted: "None \<in> set vs \<Longrightarrow> 0 < length (filter (\<lambda>v. v = None) vs)"
  by (induction vs) auto


section \<open>Claims about the classifier and the failover engine\<close>

text \<open>
  Claim C1. \<open>has_trustline\<close> answers \<open>None\<close> (Indeterminate) exactly when
  \<open>fetch_trustlines_with_failover\<close> does. Otherwise, for the list \<open>ls\<close> the engine
  returned, it answers \<open>Some True\<close> (Present) if and only if some entry of \<open>ls\<close> has
  \<open>account\<close> equal to \<open>ISSUER_OF_TOKEN\<close> and \<open>currency\<close> equal to \<open>CURRENCY_HEX\<close>, and
  \<open>Some False\<close> (Absent) if not, the empty list included. The condition is about the
  set of entries, so neither their order nor other entries matter, and equality of
  strings is exact.
\<close>

theorem has_trustline_classifies:
  "has_trustline request Wallet w =
     (case fetch_trustlines_with_failover request Wallet w of
        (None, w', evs) \<Rightarrow> (None, w', Classify Wallet # evs)
      | (Some ls, w', evs) \<Rightarrow>
          (Some (\<exists>l\<in>set ls. map_of l ''account'' = Some ISSUER_OF_TOKEN
                           \<and> map_of l ''currency'' = Some CURRENCY_HEX),
           w', Classify Wallet # evs))"
  by (simp add: has_trustline_def scan_lines_iff split: prod.splits option.splits)

text \<open>
  The theorem at two concrete answers: a matching entry after an unrelated one, with its
  keys in the other order, is Present; the issuer in lower case is Absent.
\<close>

theorem has_trustline_classifies_witness:
  "has_trustline scripted ''rW''
     [Successful (Some [[(''account'', ''other''), (''currency'', CURRENCY_HEX)],
                        [(''currency'', CURRENCY_HEX), (''account'', ISSUER_OF_TOKEN)]])]
   = (Some True, [], [Classify ''rW'', Request ''https://xrplcluster.com/'' ''rW''])
   \<and> has_trustline scripted ''rW''
     [Successful (Some [[(''account'', ''rj9uu9jkxncsnqm2clkuhpxnn8p4xmhdvq''),
                         (''currency'', CURRENCY_HEX)]])]
   = (Some False, [], [Classify ''rW'', Request ''https://xrplcluster.com/'' ''rW''])"
  using has_trustline_classifies [of scripted "''rW''"
     "[Successful (Some [[(''account'', ''other''), (''currency'', CURRENCY_HEX)],
                        [(''currency'', CURRENCY_HEX), (''account'', ISSUER_OF_TOKEN)]])]"]
    has_trustline_classifies [of scripted "''rW''"
     "[Successful (Some [[(''account'', ''rj9uu9jkxncsnqm2clkuhpxnn8p4xmhdvq''),
                          (''currency'', CURRENCY_HEX)]])]"]
  by (simp add: fetch_trustlines_with_failover_def NODES_def max_retries_per_node_def upt_rec
        ISSUER_OF_TOKEN_def CURRENCY_HEX_def)

text \<open>
  Claim C2, on the code: a node whose answer is successful and whose result holds
  \<open>lines = null\<close>. Line 87 reads \<open>result.get("lines", [])\<close>, which is Python's
  \<open>None\<close> for a key that holds \<open>null\<close>, and line 88 returns it. The engine then
  returns \<open>None\<close> after one request that was answered successfully, with five
  attempts of the schedule not made, although its docstring (lines 67--69) promises
  \<open>None\<close> only when all nodes fail.
\<close>

theorem null_lines_returns_none:
  "fetch_trustlines_with_failover scripted ''rW'' [Successful_null]
     = (None, [], [Request ''https://xrplcluster.com/'' ''rW''])
   \<and> replies scripted ''rW'' (take 1 (schedule NODES)) [Successful_null] = [Successful_null]
   \<and> is_successful Successful_null
   \<and> length (schedule NODES) = 6"
  by (simp add: fetch_trustlines_with_failover_def NODES_def max_retries_per_node_def
        base_backoff_seconds_def upt_rec schedule_def)

text \<open>
  Claim C6, on the code: a node that fails both attempts. Line 101 is reached after
  every failed attempt, the last one included, so the engine sleeps 4 seconds after
  the second attempt on a node and only then turns to the next node; after the last
  node it sleeps 4 seconds more before it returns \<open>None\<close>. Here every request raises.
\<close>

theorem backoff_after_last_attempt:
  "fetch_trustlines_with_failover scripted ''rW'' []
     = (None, [],
        [Request ''https://xrplcluster.com/'' ''rW'', Sleep 2,
         Request ''https://xrplcluster.com/'' ''rW'', Sleep 4,
         Request ''https://s2.ripple.com:51234/'' ''rW'', Sleep 2,
         Request ''https://s2.ripple.com:51234/'' ''rW'', Sleep 4,
         Request ''https://xrpl.link/'' ''rW'', Sleep 2,
         Request ''https://xrpl.link/'' ''rW'', Sleep 4])"
  by (simp add: fetch_trustlines_with_failover_def NODES_def max_retries_per_node_def
        base_backoff_seconds_def upt_rec)


section \<open>Claims about the first pass\<close>

text \<open>
  Claim C3. The first pass is \<open>process_Wallets_table\<close> on \<open>AIRDROP_TABLE\<close> with
  \<open>second_pass = False\<close>; the wallets of the source table are distinct. Let the verdicts
  be those of \<open>has_trustline\<close> for the rows in order. A row with verdict \<open>Some True\<close>
  (Present) is still the one row of its wallet in the source table, and the rows of its
  wallet in the other two tables are as before. A row with verdict \<open>Some False\<close>
  (Absent) has left the source table, and the missing table holds exactly one row for
  its wallet, with its balance. A row with verdict \<open>None\<close> (Indeterminate) has left
  the source table, and the retry table holds exactly one row for its wallet, with its
  balance. Wallets that are not in the source table keep their rows. The pass commits,
  and it returns the number of Absent verdicts and the number of Indeterminate verdicts.
\<close>

theorem pass1_policy:
  fixes request :: "'w client" and conn :: "'b connection"
  assumes "distinct (map fst (tokens (current conn)))"
    and "process_Wallets_table request conn AIRDROP_TABLE False (w, tr)
           = Some (conn', (moved_missing, moved_retry), w', tr')"
  shows "length (verdicts request (map fst (tokens (current conn))) w) = length (tokens (current conn))
    \<and> durable conn' = current conn'
    \<and> (\<forall>((Wallet, Balance), v) \<in> set (zip (tokens (current conn))
                                          (verdicts request (map fst (tokens (current conn))) w)).
         (v = Some True \<longrightarrow>
            rows_of Wallet (tokens (current conn')) = [(Wallet, Balance)] \<and>
            rows_of Wallet (tokens_missing_tl (current conn')) = rows_of Wallet (tokens_missing_tl (current conn)) \<and>
            rows_of Wallet (retry_queue (current conn')) = rows_of Wallet (retry_queue (current conn))) \<and>
         (v = Some False \<longrightarrow>
            rows_of Wallet (tokens (current conn')) = [] \<and>
            rows_of Wallet (tokens_missing_tl (current conn')) = [(Wallet, Balance)] \<and>
            rows_of Wallet (retry_queue (current conn')) = rows_of Wallet (retry_queue (current conn))) \<and>
         (v = None \<longrightarrow>
            rows_of Wallet (tokens (current conn')) = [] \<and>
            rows_of Wallet (tokens_missing_tl (current conn')) = rows_of Wallet (tokens_missing_tl (current conn)) \<and>
            (\<exists>tries. rows_of Wallet (retry_queue (current conn')) = [(Wallet, Balance, tries)])))
    \<and> (\<forall>Wallet. Wallet \<notin> fst ` set (tokens (current conn)) \<longrightarrow>
            rows_of Wallet (tokens_missing_tl (current conn')) = rows_of Wallet (tokens_missing_tl (current conn)) \<and>
            rows_of Wallet (retry_queue (current conn')) = rows_of Wallet (retry_queue (current conn)))
    \<and> moved_missing = length (filter (\<lambda>v. v = Some False) (verdicts request (map fst (tokens (current conn))) w))
    \<and> moved_retry = length (filter (\<lambda>v. v = None) (verdicts request (map fst (tokens (current conn))) w))"
proof -
  define rows where "rows = tokens (current conn)"
  define d where "d = current conn"
  obtain vs w1 evs where ca: "classify_all request (map fst rows) w = (vs, w1, evs)"
    by (cases "classify_all request (map fst rows) w")
  have vs: "verdicts request (map fst rows) w = vs" by (simp add: verdicts_def ca)
  have len: "length vs = length rows" using length_verdicts[of request "map fst rows" w] vs by simp
  define d' where "d' = fold (settle AIRDROP_TABLE False) (zip rows vs) d"
  have res: "conn' = \<lparr>durable = d', current = d'\<rparr>"
     "moved_missing = length (filter (\<lambda>v. v = Some False) vs)"
     "moved_retry = length (filter (\<lambda>v. v = None) vs)"
    using assms(2) process_Wallets_table_airdrop[OF ca[unfolded rows_def], of tr]
    by (simp_all add: d'_def rows_def d_def)
  have cur: "current conn' = d'" "durable conn' = d'" by (simp_all add: res(1))
  have dist: "distinct (map (fst \<circ> fst) (zip rows vs))"
  proof -
    have "map (fst \<circ> fst) (zip rows vs) = map fst rows"
      using len by (simp add: map_fst_zip flip: map_map)
    then show ?thesis using assms(1) by (simp add: rows_def)
  qed
  have row_in: "(W, B) \<in> set rows" if "((W, B), v) \<in> set (zip rows vs)" for W B v
    using that by (meson set_zip_leftD)
  have only: "rows_of W rows = [(W, B)]" if "(W, B) \<in> set rows" for W B
  proof -
    have "filter (\<lambda>r. fst r = W) rows = [(W, B)]"
      using that assms(1)[folded rows_def]
    proof (induction rows)
      case Nil then show ?case by simp
    next
      case (Cons r rows)
      show ?case
      proof (cases "r = (W, B)")
        case True
        then have "W \<notin> fst ` set rows" using Cons.prems(2) by auto
        then have "filter (\<lambda>r. fst r = W) rows = []" by (auto simp: filter_empty_conv)
        then show ?thesis using True by simp
      next
        case False
        then have "(W, B) \<in> set rows" using Cons.prems(1) by simp
        moreover have "fst r \<noteq> W" using Cons.prems(2) calculation by (auto simp: image_iff)
        ultimately show ?thesis using Cons by simp
      qed
    qed
    then show ?thesis by (simp add: rows_of_def)
  qed
  have eff: "(v = Some True \<longrightarrow>
            rows_of W (tokens d') = [(W, B)] \<and>
            rows_of W (tokens_missing_tl d') = rows_of W (tokens_missing_tl d) \<and>
            rows_of W (retry_queue d') = rows_of W (retry_queue d)) \<and>
         (v = Some False \<longrightarrow>
            rows_of W (tokens d') = [] \<and>
            rows_of W (tokens_missing_tl d') = [(W, B)] \<and>
            rows_of W (retry_queue d') = rows_of W (retry_queue d)) \<and>
         (v = None \<longrightarrow>
            rows_of W (tokens d') = [] \<and>
            rows_of W (tokens_missing_tl d') = rows_of W (tokens_missing_tl d) \<and>
            (\<exists>tries. rows_of W (retry_queue d') = [(W, B, tries)]))"
    if "((W, B), v) \<in> set (zip rows vs)" for W B v
  proof -
    note e = fold_settle_effect[OF dist that, of d, folded d'_def]
    have o: "rows_of W (tokens d) = [(W, B)]" using only[OF row_in[OF that]] by (simp add: d_def rows_def)
    show ?thesis using e o by (cases v) auto
  qed
  have frame: "rows_of W (tokens_missing_tl d') = rows_of W (tokens_missing_tl d) \<and>
               rows_of W (retry_queue d') = rows_of W (retry_queue d)"
    if "W \<notin> fst ` set rows" for W
  proof -
    have "W \<notin> fst ` fst ` set (zip rows vs)"
      using that by (auto simp: image_iff dest!: set_zip_leftD)
    from fold_settle_frame[OF this, of d, folded d'_def] show ?thesis by simp
  qed
  have vs': "verdicts request (map fst (tokens (current conn))) w = vs"
    using vs by (simp add: rows_def)
  show ?thesis
    unfolding vs' cur
    using len[unfolded rows_def] res(2,3) eff[unfolded rows_def d_def] frame[unfolded rows_def d_def]
    by (intro conjI ballI allI impI; (simp; fail)?) (auto simp only: split_paired_all case_prod_conv)
qed

text \<open>
  The theorem on three wallets: \<open>W1\<close> Present, \<open>W2\<close> Absent with an older row in
  the missing table, \<open>W3\<close> Indeterminate (every request raises).
\<close>

theorem pass1_policy_witness:
  "distinct (map fst (tokens (current (connect
      \<lparr>tokens = [(''W1'', 100::int), (''W2'', 200), (''W3'', 50)],
        tokens_missing_tl = [(''W2'', 7)], retry_queue = []\<rparr>))))
   \<and> process_Wallets_table scripted
      (connect \<lparr>tokens = [(''W1'', 100::int), (''W2'', 200), (''W3'', 50)],
                tokens_missing_tl = [(''W2'', 7)], retry_queue = []\<rparr>)
      AIRDROP_TABLE False ([Successful (Some [trustline]), Successful (Some [])], [])
     = Some (\<lparr>durable = \<lparr>tokens = [(''W1'', 100)], tokens_missing_tl = [(''W2'', 200)],
                           retry_queue = [(''W3'', 50, 0)]\<rparr>,
              current = \<lparr>tokens = [(''W1'', 100)], tokens_missing_tl = [(''W2'', 200)],
                           retry_queue = [(''W3'', 50, 0)]\<rparr>\<rparr>,
             (1, 1), [],
             [Classify ''W1'', Request ''https://xrplcluster.com/'' ''W1'', Throttle,
              Classify ''W2'', Request ''https://xrplcluster.com/'' ''W2'', Throttle,
              Classify ''W3''] @ failed_lookup ''W3'' @ [Throttle])
   \<and> verdicts scripted [''W1'', ''W2'', ''W3''] [Successful (Some [trustline]), Successful (Some [])]
     = [Some True, Some False, None]"
proof -
  let ?c0 = "connect \<lparr>tokens = [(''W1'', 100::int), (''W2'', 200), (''W3'', 50)],
                tokens_missing_tl = [(''W2'', 7)], retry_queue = []\<rparr>"
  have h1: "distinct (map fst (tokens (current ?c0)))"
    by (simp add: connect_def)
  have h2: "process_Wallets_table scripted ?c0
      AIRDROP_TABLE False ([Successful (Some [trustline]), Successful (Some [])], [])
     = Some (\<lparr>durable = \<lparr>tokens = [(''W1'', 100)], tokens_missing_tl = [(''W2'', 200)],
                           retry_queue = [(''W3'', 50, 0)]\<rparr>,
              current = \<lparr>tokens = [(''W1'', 100)], tokens_missing_tl = [(''W2'', 200)],
                           retry_queue = [(''W3'', 50, 0)]\<rparr>\<rparr>,
             (1, 1), [],
             [Classify ''W1'', Request ''https://xrplcluster.com/'' ''W1'', Throttle,
              Classify ''W2'', Request ''https://xrplcluster.com/'' ''W2'', Throttle,
              Classify ''W3''] @ failed_lookup ''W3'' @ [Throttle])"
    by (simp add: eval_defs)
  have v: "verdicts scripted [''W1'', ''W2'', ''W3''] [Successful (Some [trustline]), Successful (Some [])]
     = [Some True, Some False, None]"
    by (simp add: verdicts_def eval_defs)
  note th = pass1_policy [OF h1 h2]
  from th have "(1::nat) = length (filter (\<lambda>v. v = Some False)
      (verdicts scripted (map fst (tokens (current ?c0))) [Successful (Some [trustline]), Successful (Some [])]))"
    by blast
  with h1 h2 v show ?thesis by simp
qed

text \<open>
  Claim C7, as stated, fails on the code: in the scenario the wallet \<open>W1\<close> is Present,
  so its row stays, and the source table is not empty after the pass.
\<close>

theorem scenario_source_not_empty:
  "process_Wallets_table scripted
     (connect \<lparr>tokens = [(''W1'', 100::int), (''W2'', 200)],
               tokens_missing_tl = [], retry_queue = []\<rparr>)
     AIRDROP_TABLE False ([Successful (Some [trustline]), Successful (Some [])], [])
   \<noteq> Some (\<lparr>durable = \<lparr>tokens = [], tokens_missing_tl = [(''W2'', 200)], retry_queue = []\<rparr>,
             current = \<lparr>tokens = [], tokens_missing_tl = [(''W2'', 200)], retry_queue = []\<rparr>\<rparr>,
            (1, 0), [],
            [Classify ''W1'', Request ''https://xrplcluster.com/'' ''W1'', Throttle,
             Classify ''W2'', Request ''https://xrplcluster.com/'' ''W2'', Throttle])"
  by (simp add: eval_defs)

text \<open>
  Claim C7, amended. For the source table \<open>{W1: 100, W2: 200}\<close> and empty missing and
  retry tables, when the first node answers the first attempt for \<open>W1\<close> with a list
  that holds the trustline and the first attempt for \<open>W2\<close> with a list that does not,
  the first pass ends with the source table \<open>{W1: 100}\<close>, the missing table
  \<open>{W2: 200}\<close>, the retry table empty and the counts \<open>(1, 0)\<close>, after one request
  for each wallet.
\<close>

theorem scenario_pass1:
  fixes request :: "'w client"
  assumes "request w ''https://xrplcluster.com/'' ''W1'' = (Successful result1, w1)"
    and "scan_lines (lines_of (Successful result1))"
    and "request w1 ''https://xrplcluster.com/'' ''W2'' = (Successful result2, w2)"
    and "\<not> scan_lines (lines_of (Successful result2))"
  shows "process_Wallets_table request
           (connect \<lparr>tokens = [(''W1'', 100::int), (''W2'', 200)],
                     tokens_missing_tl = [], retry_queue = []\<rparr>)
           AIRDROP_TABLE False (w, [])
         = Some (\<lparr>durable = \<lparr>tokens = [(''W1'', 100)], tokens_missing_tl = [(''W2'', 200)],
                               retry_queue = []\<rparr>,
                  current = \<lparr>tokens = [(''W1'', 100)], tokens_missing_tl = [(''W2'', 200)],
                               retry_queue = []\<rparr>\<rparr>,
                 (1, 0), w2,
                 [Classify ''W1'', Request ''https://xrplcluster.com/'' ''W1'', Throttle,
                  Classify ''W2'', Request ''https://xrplcluster.com/'' ''W2'', Throttle])"
proof -
  have hd: "hd NODES = ''https://xrplcluster.com/''" by (simp add: NODES_def)
  have f1: "fetch_trustlines_with_failover request ''W1'' w =
      (Some (lines_of (Successful result1)), w1, [Request ''https://xrplcluster.com/'' ''W1''])"
    using first_attempt_success[of request w "''W1''" result1 w1] assms(1) by (simp add: hd)
  have f2: "fetch_trustlines_with_failover request ''W2'' w1 =
      (Some (lines_of (Successful result2)), w2, [Request ''https://xrplcluster.com/'' ''W2''])"
    using first_attempt_success[of request w1 "''W2''" result2 w2] assms(3) by (simp add: hd)
  have h1: "has_trustline request ''W1'' w = (Some True, w1, [Classify ''W1'', Request ''https://xrplcluster.com/'' ''W1''])"
    using assms(2) by (simp add: has_trustline_def f1)
  have h2: "has_trustline request ''W2'' w1 = (Some False, w2, [Classify ''W2'', Request ''https://xrplcluster.com/'' ''W2''])"
    using assms(4) by (simp add: has_trustline_def f2)
  show ?thesis
    by (simp add: process_Wallets_table_def select_wallet_balance_def connect_def commit_def h1 h2
          delete_from_def insert_or_replace_missing_def)
qed

theorem scenario_pass1_witness:
  "scripted [Successful (Some [trustline]), Successful (Some [])] ''https://xrplcluster.com/'' ''W1''
     = (Successful (Some [trustline]), [Successful (Some [])])
   \<and> scan_lines (lines_of (Successful (Some [trustline])))
   \<and> scripted [Successful (Some [])] ''https://xrplcluster.com/'' ''W2'' = (Successful (Some []), [])
   \<and> \<not> scan_lines (lines_of (Successful (Some [])))
   \<and> process_Wallets_table scripted
        (connect \<lparr>tokens = [(''W1'', 100::int), (''W2'', 200)],
                  tokens_missing_tl = [], retry_queue = []\<rparr>)
        AIRDROP_TABLE False ([Successful (Some [trustline]), Successful (Some [])], [])
      = Some (\<lparr>durable = \<lparr>tokens = [(''W1'', 100)], tokens_missing_tl = [(''W2'', 200)],
                            retry_queue = []\<rparr>,
               current = \<lparr>tokens = [(''W1'', 100)], tokens_missing_tl = [(''W2'', 200)],
                            retry_queue = []\<rparr>\<rparr>,
              (1, 0), [],
              [Classify ''W1'', Request ''https://xrplcluster.com/'' ''W1'', Throttle,
               Classify ''W2'', Request ''https://xrplcluster.com/'' ''W2'', Throttle])"
proof -
  have a: "scripted [Successful (Some [trustline]), Successful (Some [])] ''https://xrplcluster.com/'' ''W1''
     = (Successful (Some [trustline]), [Successful (Some [])])" by simp
  have b: "scan_lines (lines_of (Successful (Some [trustline])))" by (simp add: trustline_def)
  have c: "scripted [Successful (Some [])] ''https://xrplcluster.com/'' ''W2'' = (Successful (Some []), [])"
    by simp
  have d: "\<not> scan_lines (lines_of (Successful (Some [])))" by simp
  show ?thesis
    using scenario_pass1 [of scripted "[Successful (Some [trustline]), Successful (Some [])]"
            "Some [trustline]" "[Successful (Some [])]" "Some []" "[]", OF a b c d] a b c d
    by simp
qed

text \<open>
  Claim C8, as stated, fails on the code: the statements of a pass run in one
  transaction, committed once after the loop (line 193). With two Absent wallets, a
  process killed after the first wallet has been handled leaves the file as it was: the
  move of \<open>W1\<close> is in the connection's view only.
\<close>

theorem killed_mid_pass_counterexample:
  "process_Wallets_table_killed 1 scripted
     (connect \<lparr>tokens = [(''W1'', 100::int), (''W2'', 200)], tokens_missing_tl = [], retry_queue = []\<rparr>)
     AIRDROP_TABLE False ([Successful (Some []), Successful (Some [])], [])
   = Some \<lparr>durable = \<lparr>tokens = [(''W1'', 100), (''W2'', 200)], tokens_missing_tl = [], retry_queue = []\<rparr>,
           current = \<lparr>tokens = [(''W2'', 200)], tokens_missing_tl = [(''W1'', 100)], retry_queue = []\<rparr>\<rparr>"
  by (simp add: process_Wallets_table_killed_def eval_defs)

text \<open>
  Claim C8, amended. The first pass issues the writes of each wallet together, one
  wallet after the other, inside one transaction that spans all rows. Killed after
  \<open>k\<close> rows, the connection's view holds the moves of the first \<open>k\<close> rows and the
  file holds none of them: it is what it was before the pass. When the pass completes,
  the single commit makes all moves durable.
\<close>

theorem pass1_one_transaction:
  fixes request :: "'w client" and conn :: "'b connection"
  shows "\<exists>killed conn' counts w' tr'.
      process_Wallets_table_killed k request conn AIRDROP_TABLE False (w, tr) = Some killed
    \<and> process_Wallets_table request conn AIRDROP_TABLE False (w, tr) = Some (conn', counts, w', tr')
    \<and> durable killed = durable conn
    \<and> current killed =
        fold (settle AIRDROP_TABLE False)
          (take k (zip (tokens (current conn)) (verdicts request (map fst (tokens (current conn))) w)))
          (current conn)
    \<and> current conn' =
        fold (settle AIRDROP_TABLE False)
          (zip (tokens (current conn)) (verdicts request (map fst (tokens (current conn))) w))
          (current conn)
    \<and> durable conn' = current conn'"
proof -
  define rows where "rows = tokens (current conn)"
  obtain vs w1 evs where ca: "classify_all request (map fst rows) w = (vs, w1, evs)"
    by (cases "classify_all request (map fst rows) w")
  have vs: "verdicts request (map fst rows) w = vs" by (simp add: verdicts_def ca)
  obtain dk mk rk wk trk where lk: "wallets_loop request AIRDROP_TABLE False (take k rows) (current conn, 0, 0, w, tr) = (dk, mk, rk, wk, trk)"
    by (cases "wallets_loop request AIRDROP_TABLE False (take k rows) (current conn, 0, 0, w, tr)")
  have "dk = fold (settle AIRDROP_TABLE False) (zip (take k rows) (verdicts request (map fst (take k rows)) w)) (current conn)"
    using wallets_loop_db[of request AIRDROP_TABLE False "take k rows" "current conn" 0 0 w tr] lk by simp
  also have "verdicts request (map fst (take k rows)) w = take k vs"
    using classify_all_take[of request k "map fst rows" w] by (simp add: verdicts_def ca take_map)
  finally have dk: "dk = fold (settle AIRDROP_TABLE False) (take k (zip rows vs)) (current conn)"
    by (simp add: take_zip)
  have killed: "process_Wallets_table_killed k request conn AIRDROP_TABLE False (w, tr)
                  = Some (conn\<lparr>current := dk\<rparr>)"
    by (simp add: process_Wallets_table_killed_def select_wallet_balance_def lk rows_def[symmetric])
  note full = process_Wallets_table_airdrop[OF ca[unfolded rows_def], of tr]
  show ?thesis
    unfolding killed full vs[unfolded rows_def]
    by (simp add: dk rows_def)
qed

text \<open>
  Claim C9. When the loop body of the first pass finds a wallet Indeterminate, it
  replaces the wallet's row in the retry table by one with the new balance and the
  \<open>tries\<close> of the old row, or \<open>0\<close> when there was none; the rows of other wallets
  stay as they are.
\<close>

theorem retry_upsert_keeps_tries:
  fixes request :: "'w client" and d :: "'b db"
  assumes "fst (has_trustline request Wallet w) = None"
  shows "retry_queue (fst (wallets_body request AIRDROP_TABLE False (Wallet, Balance) (d, mm, mr, w, tr)))
           = filter (\<lambda>r. fst r \<noteq> Wallet) (retry_queue d)
             @ [(Wallet, Balance, case select_tries d Wallet of Some tries \<Rightarrow> tries | None \<Rightarrow> 0)]
       \<and> (\<forall>Balance0 tries. rows_of Wallet (retry_queue d) = [(Wallet, Balance0, tries)] \<longrightarrow>
            rows_of Wallet (retry_queue (fst (wallets_body request AIRDROP_TABLE False (Wallet, Balance) (d, mm, mr, w, tr))))
              = [(Wallet, Balance, tries)])
       \<and> (rows_of Wallet (retry_queue d) = [] \<longrightarrow>
            rows_of Wallet (retry_queue (fst (wallets_body request AIRDROP_TABLE False (Wallet, Balance) (d, mm, mr, w, tr))))
              = [(Wallet, Balance, 0)])
       \<and> (\<forall>Other. Other \<noteq> Wallet \<longrightarrow>
            rows_of Other (retry_queue (fst (wallets_body request AIRDROP_TABLE False (Wallet, Balance) (d, mm, mr, w, tr))))
              = rows_of Other (retry_queue d))"
proof -
  obtain v w' evs where ht: "has_trustline request Wallet w = (v, w', evs)"
    by (cases "has_trustline request Wallet w")
  have v: "v = None" using assms ht by simp
  have db: "fst (wallets_body request AIRDROP_TABLE False (Wallet, Balance) (d, mm, mr, w, tr))
              = settle AIRDROP_TABLE False ((Wallet, Balance), None) d"
    unfolding wallets_body_settle[OF ht] v by simp
  show ?thesis
    unfolding db
    by (simp add: settle_airdrop_retry coalesce_tries_def select_tries_rows_of
          rows_of_append rows_of_single rows_of_filter_self rows_of_filter_other
          del: settle.simps)
qed

text \<open>The theorem at a wallet that is in the retry table with \<open>tries = 3\<close>.\<close>

theorem retry_upsert_keeps_tries_witness:
  "fst (has_trustline scripted ''W3'' []) = None
   \<and> retry_queue (fst (wallets_body scripted AIRDROP_TABLE False (''W3'', 50::int)
        (\<lparr>tokens = [(''W3'', 50)], tokens_missing_tl = [],
           retry_queue = [(''W3'', 40, 3), (''W4'', 10, 1)]\<rparr>, 0, 0, [], [])))
     = [(''W4'', 10, 1), (''W3'', 50, 3)]"
proof -
  have h: "fst (has_trustline scripted ''W3'' []) = None"
    by (simp add: eval_defs)
  show ?thesis
    using retry_upsert_keeps_tries [OF h, of "50::int"
        "\<lparr>tokens = [(''W3'', 50)], tokens_missing_tl = [],
           retry_queue = [(''W3'', 40, 3), (''W4'', 10, 1)]\<rparr>" 0 0 "[]"] h
    by (simp add: select_tries_def)
qed

text \<open>
  Claim C10. When the first successful answer for a wallet has no key \<open>lines\<close>, the
  engine returns the empty list, not \<open>None\<close>; \<open>has_trustline\<close> answers
  \<open>Some False\<close> (Absent); and the loop body of the first pass moves the wallet to the
  missing table and counts it there, leaving the retry table alone.
\<close>

theorem missing_lines_is_absent:
  fixes request :: "'w client" and d :: "'b db"
  assumes "k < length (schedule NODES)"
    and "replies request Wallet (schedule NODES) w ! k = Successful None"
    and "\<forall>j<k. \<not> is_successful (replies request Wallet (schedule NODES) w ! j)"
  shows "fst (fetch_trustlines_with_failover request Wallet w) = Some []
       \<and> fst (has_trustline request Wallet w) = Some False
       \<and> (case wallets_body request AIRDROP_TABLE False (Wallet, Balance) (d, mm, mr, w, tr) of
            (d', mm', mr', s') \<Rightarrow>
              rows_of Wallet (tokens d') = [] \<and>
              rows_of Wallet (tokens_missing_tl d') = [(Wallet, Balance)] \<and>
              retry_queue d' = retry_queue d \<and>
              mm' = mm + 1 \<and> mr' = mr)"
proof -
  define rs where "rs = replies request Wallet (schedule NODES) w"
  obtain r w' evs where nl: "node_loop request Wallet NODES w = (r, w', evs)"
    by (cases "node_loop request Wallet NODES w")
  have len: "length rs = length (schedule NODES)" by (simp add: rs_def length_replies)
  have "is_successful (rs ! k)" using assms(2) by (simp add: rs_def)
  then have fs: "first_success rs = k"
    using assms(1,3) len by (intro first_success_index) (auto simp: rs_def)
  have "r = returned (rs ! k)"
    using node_loop_char[OF nl] fs assms(1) len by (simp add: Let_def rs_def)
  then have r: "r = Some []" using assms(2) by (simp add: rs_def)
  have f: "fetch_trustlines_with_failover request Wallet w = (Some [], w', evs)"
    using nl r by (simp add: fetch_trustlines_with_failover_def)
  have ht: "has_trustline request Wallet w = (Some False, w', Classify Wallet # evs)"
    by (simp add: has_trustline_def f)
  show ?thesis
    unfolding wallets_body_settle[OF ht]
    by (simp add: f ht settle_airdrop_self settle_airdrop_retry del: settle.simps)
qed

text \<open>The theorem at a node that first raises and then answers without \<open>lines\<close>.\<close>

theorem missing_lines_is_absent_witness:
  "(1::nat) < length (schedule NODES)
   \<and> replies scripted ''W5'' (schedule NODES) [Raised, Successful None] ! 1 = Successful None
   \<and> \<not> is_successful (replies scripted ''W5'' (schedule NODES) [Raised, Successful None] ! 0)
   \<and> has_trustline scripted ''W5'' [Raised, Successful None]
      = (Some False, [],
         [Classify ''W5'', Request ''https://xrplcluster.com/'' ''W5'', Sleep 2,
          Request ''https://xrplcluster.com/'' ''W5''])
   \<and> fst (wallets_body scripted AIRDROP_TABLE False (''W5'', 5::int)
        (\<lparr>tokens = [(''W5'', 5)], tokens_missing_tl = [], retry_queue = []\<rparr>, 0, 0,
         [Raised, Successful None], []))
      = \<lparr>tokens = [], tokens_missing_tl = [(''W5'', 5)], retry_queue = []\<rparr>"
proof -
  have a: "(1::nat) < length (schedule NODES)" by (simp add: schedule_NODES)
  have b: "replies scripted ''W5'' (schedule NODES) [Raised, Successful None] ! 1 = Successful None"
    by (simp add: schedule_NODES)
  have c: "\<forall>j<1. \<not> is_successful (replies scripted ''W5'' (schedule NODES) [Raised, Successful None] ! j)"
    by (simp add: schedule_NODES)
  note th = missing_lines_is_absent [OF a b c, of "5::int"
      "\<lparr>tokens = [(''W5'', 5)], tokens_missing_tl = [], retry_queue = []\<rparr>" 0 0 "[]"]
  have "fst (has_trustline scripted ''W5'' [Raised, Successful None]) = Some False"
    using th by (rule conjunct2 [THEN conjunct1])
  moreover have "\<not> is_successful (replies scripted ''W5'' (schedule NODES) [Raised, Successful None] ! 0)"
    by (simp add: schedule_NODES)
  ultimately show ?thesis using a b by (simp add: eval_defs)
qed


section \<open>Claims about the two passes together\<close>

text \<open>
  Claim C4. In \<open>main\<close>, the second pass runs if and only if the first pass counted at
  least one wallet moved to the retry table; without it the run ends as the first pass
  left it. When it runs, \<open>process_retry_queue\<close> calls \<open>has_trustline\<close> once for each
  row of the retry table, in order; the source table is untouched, the retry table is
  empty afterwards and the pass commits. With distinct wallets in the retry table, a row
  found Present leaves the rows of its wallet in the missing table as they were, and a
  row found Absent or Indeterminate makes \<open>(Wallet, Balance)\<close> the one row of its
  wallet in the missing table, both alike; the counter is the number of such rows. With
  distinct wallets in the source and retry tables, no wallet is classified more than
  twice in a run.
\<close>

theorem second_pass_policy:
  fixes request :: "'w client"
  assumes "main request (file :: 'b db) w = Some (file', (moved_missing, moved_retry), second, w', tr')"
  shows "\<exists>conn1 w1 tr1.
      process_Wallets_table request (ensure_tables (connect file)) AIRDROP_TABLE False (w, [])
        = Some (conn1, (moved_missing, moved_retry), w1, tr1)
    \<and> (moved_retry = 0 \<longrightarrow> second = None \<and> file' = durable conn1 \<and> w' = w1 \<and> tr' = tr1)
    \<and> (0 < moved_retry \<longrightarrow>
        (\<exists>conn2 moved_missing_2.
           process_retry_queue request conn1 (w1, tr1) = (conn2, moved_missing_2, w', tr')
         \<and> second = Some moved_missing_2 \<and> file' = durable conn2 \<and> durable conn2 = current conn2
         \<and> retry_queue file' = []
         \<and> tokens file' = tokens (current conn1)
         \<and> classified tr' = classified tr1 @ map fst (retry_queue (current conn1))
         \<and> moved_missing_2 = length (filter (\<lambda>v. v \<noteq> Some True)
               (verdicts request (map fst (retry_queue (current conn1))) w1))
         \<and> (distinct (map fst (retry_queue file)) \<longrightarrow>
             (\<forall>((Wallet, Balance, tries), v)
                 \<in> set (zip (retry_queue (current conn1))
                             (verdicts request (map fst (retry_queue (current conn1))) w1)).
                 (v = Some True \<longrightarrow> rows_of Wallet (tokens_missing_tl file')
                                        = rows_of Wallet (tokens_missing_tl (current conn1)))
               \<and> (v = Some False \<longrightarrow> rows_of Wallet (tokens_missing_tl file') = [(Wallet, Balance)])
               \<and> (v = None \<longrightarrow> rows_of Wallet (tokens_missing_tl file') = [(Wallet, Balance)])))))
    \<and> (distinct (map fst (tokens file)) \<and> distinct (map fst (retry_queue file)) \<longrightarrow>
         (\<forall>Wallet. count_list (classified tr') Wallet \<le> 2))"
proof -
  define conn0 where "conn0 = ensure_tables (connect file)"
  have c0: "current conn0 = file" "durable conn0 = file"
    by (simp_all add: conn0_def ensure_tables_def commit_def connect_def)
  obtain vs1 w1 evs1 where ca1: "classify_all request (map fst (tokens (current conn0))) w = (vs1, w1, evs1)"
    by (cases "classify_all request (map fst (tokens (current conn0))) w")
  define d1 where "d1 = fold (settle AIRDROP_TABLE False) (zip (tokens (current conn0)) vs1) (current conn0)"
  define conn1 where "conn1 = \<lparr>durable = d1, current = d1\<rparr>"
  define mm where "mm = length (filter (\<lambda>v. v = Some False) vs1)"
  define mr where "mr = length (filter (\<lambda>v. v = None) vs1)"
  have p1: "process_Wallets_table request conn0 AIRDROP_TABLE False (w, []) = Some (conn1, (mm, mr), w1, evs1)"
    using process_Wallets_table_airdrop[OF ca1, of "[]"] by (simp add: conn1_def d1_def mm_def mr_def)
  have cur1: "current conn1 = d1" "durable conn1 = d1" by (simp_all add: conn1_def)
  have cl1: "classified evs1 = map fst (tokens file)"
    using classified_classify_all[OF ca1] by (simp add: c0)
  obtain vs2 w2 evs2 where ca2: "classify_all request (map fst (retry_queue (current conn1))) w1 = (vs2, w2, evs2)"
    by (cases "classify_all request (map fst (retry_queue (current conn1))) w1")
  have vs2: "verdicts request (map fst (retry_queue (current conn1))) w1 = vs2"
    by (simp add: verdicts_def ca2)
  have len2: "length vs2 = length (retry_queue d1)"
    using length_verdicts[of request "map fst (retry_queue (current conn1))" w1] vs2 by (simp add: cur1)
  define d2 where "d2 = fold retry_settle (zip (retry_queue d1) vs2) d1"
  define conn2 where "conn2 = \<lparr>durable = d2, current = d2\<rparr>"
  have p2: "process_retry_queue request conn1 (w1, evs1) =
              (conn2, length (filter (\<lambda>v. v \<noteq> Some True) vs2), w2, evs1 @ evs2)"
    using process_retry_queue_char[OF ca2, of evs1] by (simp add: conn2_def d2_def cur1)
  have cl2: "classified evs2 = map fst (retry_queue d1)"
    using classified_classify_all[OF ca2] by (simp add: cur1)
  have m: "main request file w =
      (if mr > 0 then Some (d2, (mm, mr), Some (length (filter (\<lambda>v. v \<noteq> Some True) vs2)), w2, evs1 @ evs2)
       else Some (d1, (mm, mr), None, w1, evs1))"
    unfolding main_def Let_def conn0_def[symmetric] p1 by (simp add: p2 conn2_def cur1)
  have cnt: "moved_missing = mm" "moved_retry = mr" using assms m by (auto split: if_splits)
  have A: "moved_retry = 0 \<longrightarrow> second = None \<and> file' = durable conn1 \<and> w' = w1 \<and> tr' = evs1"
    using assms m cnt by (auto simp: cur1 split: if_splits)
  have eff2: "(v = Some True \<longrightarrow> rows_of W (tokens_missing_tl d2) = rows_of W (tokens_missing_tl d1))
            \<and> (v = Some False \<longrightarrow> rows_of W (tokens_missing_tl d2) = [(W, B)])
            \<and> (v = None \<longrightarrow> rows_of W (tokens_missing_tl d2) = [(W, B)])"
    if dr: "distinct (map fst (retry_queue file))" and mem: "((W, B, t), v) \<in> set (zip (retry_queue d1) vs2)"
    for W B t v
  proof -
    have "distinct (map fst (retry_queue d1))"
      unfolding d1_def c0 using fold_settle_distinct_retry[OF dr] .
    moreover have "map (fst \<circ> fst) (zip (retry_queue d1) vs2) = map fst (retry_queue d1)"
      using len2 by (simp add: map_fst_zip flip: map_map)
    ultimately have "distinct (map (fst \<circ> fst) (zip (retry_queue d1) vs2))" by simp
    from fold_retry_effect[OF this mem, of d1, folded d2_def] show ?thesis by (cases v) auto
  qed
  have B: "\<exists>conn2 moved_missing_2.
           process_retry_queue request conn1 (w1, evs1) = (conn2, moved_missing_2, w', tr')
         \<and> second = Some moved_missing_2 \<and> file' = durable conn2 \<and> durable conn2 = current conn2
         \<and> retry_queue file' = []
         \<and> tokens file' = tokens (current conn1)
         \<and> classified tr' = classified evs1 @ map fst (retry_queue (current conn1))
         \<and> moved_missing_2 = length (filter (\<lambda>v. v \<noteq> Some True)
               (verdicts request (map fst (retry_queue (current conn1))) w1))
         \<and> (distinct (map fst (retry_queue file)) \<longrightarrow>
             (\<forall>((Wallet, Balance, tries), v)
                 \<in> set (zip (retry_queue (current conn1))
                             (verdicts request (map fst (retry_queue (current conn1))) w1)).
                 (v = Some True \<longrightarrow> rows_of Wallet (tokens_missing_tl file')
                                        = rows_of Wallet (tokens_missing_tl (current conn1)))
               \<and> (v = Some False \<longrightarrow> rows_of Wallet (tokens_missing_tl file') = [(Wallet, Balance)])
               \<and> (v = None \<longrightarrow> rows_of Wallet (tokens_missing_tl file') = [(Wallet, Balance)])))"
    if pos: "0 < moved_retry"
  proof -
    have r: "file' = d2" "second = Some (length (filter (\<lambda>v. v \<noteq> Some True) vs2))" "w' = w2" "tr' = evs1 @ evs2"
      using assms m cnt pos by (auto split: if_splits)
    have e: "retry_queue d2 = []"
      unfolding d2_def using fold_retry_empties[OF len2] .
    have t: "tokens d2 = tokens d1" by (simp add: d2_def fold_retry_tokens)
    have c: "classified (evs1 @ evs2) = classified evs1 @ map fst (retry_queue d1)"
      by (simp add: classified_append cl2)
    have vs2': "verdicts request (map fst (retry_queue d1)) w1 = vs2"
      using vs2 by (simp add: cur1)
    show ?thesis
      unfolding cur1 vs2' r
      apply (rule exI[of _ conn2], rule exI[of _ "length (filter (\<lambda>v. v \<noteq> Some True) vs2)"])
      using p2 e t c eff2
      by (intro conjI impI ballI; (simp add: conn2_def; fail)?)
         (auto simp only: split_paired_all case_prod_conv)
  qed
  have C: "count_list (classified tr') W \<le> 2"
    if dt: "distinct (map fst (tokens file))" and dr: "distinct (map fst (retry_queue file))" for W
  proof -
    have "distinct (map fst (retry_queue d1))"
      unfolding d1_def c0 using fold_settle_distinct_retry[OF dr] .
    then have a: "count_list (map fst (retry_queue d1)) W \<le> 1" by (rule distinct_count_le_1)
    have b: "count_list (map fst (tokens file)) W \<le> 1" using dt by (rule distinct_count_le_1)
    have "tr' = evs1 \<or> tr' = evs1 @ evs2" using assms m by (auto split: if_splits)
    then show ?thesis
      using a b by (auto simp: classified_append cl1 cl2)
  qed
  show ?thesis
    apply (rule exI[of _ conn1], rule exI[of _ w1], rule exI[of _ evs1])
    using p1 A B C unfolding conn0_def cnt by blast
qed

text \<open>
  The theorem on the wallet \<open>W3\<close> for which every request raises: it is moved to the
  retry table, the second pass runs and moves it to the missing table, after two
  classifications.
\<close>

theorem second_pass_policy_witness:
  "main scripted \<lparr>tokens = [(''W3'', 50::int)], tokens_missing_tl = [], retry_queue = []\<rparr> []
     = Some (\<lparr>tokens = [], tokens_missing_tl = [(''W3'', 50)], retry_queue = []\<rparr>,
             (0, 1), Some 1, [],
             Classify ''W3'' # failed_lookup ''W3'' @ Throttle # Classify ''W3'' # failed_lookup ''W3''
               @ [Throttle])
   \<and> count_list (classified (Classify ''W3'' # failed_lookup ''W3'' @ Throttle # Classify ''W3''
         # failed_lookup ''W3'' @ [Throttle])) ''W3'' \<le> 2"
proof -
  let ?F = "\<lparr>tokens = [(''W3'', 50::int)], tokens_missing_tl = [], retry_queue = []\<rparr>"
  let ?tr = "Classify ''W3'' # failed_lookup ''W3'' @ Throttle # Classify ''W3'' # failed_lookup ''W3''
               @ [Throttle]"
  have h: "main scripted ?F []
     = Some (\<lparr>tokens = [], tokens_missing_tl = [(''W3'', 50)], retry_queue = []\<rparr>,
             (0, 1), Some 1, [], ?tr)"
    by (simp add: main_def process_retry_queue_def ensure_tables_def eval_defs)
  have imp: "distinct (map fst (tokens ?F)) \<and> distinct (map fst (retry_queue ?F)) \<longrightarrow>
          (\<forall>Wallet. count_list (classified ?tr) Wallet \<le> 2)"
    using second_pass_policy [OF h] by blast
  have d: "distinct (map fst (tokens ?F)) \<and> distinct (map fst (retry_queue ?F))" by simp
  from imp d have "\<forall>Wallet. count_list (classified ?tr) Wallet \<le> 2" by (rule mp)
  then have c: "count_list (classified ?tr) ''W3'' \<le> 2" by (rule spec)
  show ?thesis using h c by (intro conjI)
qed

text \<open>
  Claim C5. Let the database file satisfy the invariant of the data model before the
  run: wallets are unique within each table and no wallet is in two tables. Then every
  state of the run, taken before and after each iteration of the two passes, satisfies
  it again: at no such point is a wallet in more than one table. A wallet that starts
  in the source table ends in the source table only, or in the missing table only, or
  in no table, and the last only when the second pass ran and found it Present.
  Between the \<open>INSERT\<close> and the \<open>DELETE\<close> of one move the wallet is in two tables of
  the connection's open transaction; the states here are those between moves.
\<close>

theorem residency:
  fixes request :: "'w client"
  assumes "unique_keys (file :: 'b db)" and "exclusive file"
    and "main request file w = Some (file', (moved_missing, moved_retry), second, w', tr')"
  shows "(\<forall>d \<in> set (main_states request file w). exclusive d \<and> unique_keys d)
       \<and> hd (main_states request file w) = file
       \<and> last (main_states request file w) = file'
       \<and> (\<forall>Wallet \<in> fst ` set (tokens file).
            (Wallet \<in> fst ` set (tokens file') \<and> Wallet \<notin> fst ` set (tokens_missing_tl file')
               \<and> Wallet \<notin> fst ` set (retry_queue file'))
          \<or> (Wallet \<notin> fst ` set (tokens file') \<and> Wallet \<in> fst ` set (tokens_missing_tl file')
               \<and> Wallet \<notin> fst ` set (retry_queue file'))
          \<or> (Wallet \<notin> fst ` set (tokens file') \<and> Wallet \<notin> fst ` set (tokens_missing_tl file')
               \<and> Wallet \<notin> fst ` set (retry_queue file')
               \<and> confirmed_on_retry request file w Wallet))"
proof -
  define conn0 where "conn0 = ensure_tables (connect file)"
  have c0: "current conn0 = file" "durable conn0 = file"
    by (simp_all add: conn0_def ensure_tables_def commit_def connect_def)
  obtain vs1 w1 evs1 where ca1: "classify_all request (map fst (tokens file)) w = (vs1, w1, evs1)"
    by (cases "classify_all request (map fst (tokens file)) w")
  have len1: "length vs1 = length (tokens file)"
    using length_classify_all[of request "map fst (tokens file)" w] ca1 by simp
  define d1 where "d1 = fold (settle AIRDROP_TABLE False) (zip (tokens file) vs1) file"
  define conn1 where "conn1 = \<lparr>durable = d1, current = d1\<rparr>"
  define mm where "mm = length (filter (\<lambda>v. v = Some False) vs1)"
  define mr where "mr = length (filter (\<lambda>v. v = None) vs1)"
  have l1: "wallets_loop request AIRDROP_TABLE False (tokens file) (file, 0, 0, w, []) = (d1, mm, mr, w1, evs1)"
    using wallets_loop_char[OF ca1, of AIRDROP_TABLE False "file" 0 0 "[]"] by (simp add: d1_def mm_def mr_def)
  have p1: "process_Wallets_table request conn0 AIRDROP_TABLE False (w, []) = Some (conn1, (mm, mr), w1, evs1)"
    using process_Wallets_table_airdrop[of request conn0 w vs1 w1 evs1 "[]"] ca1
    by (simp add: c0 conn1_def d1_def mm_def mr_def)
  have cur1: "current conn1 = d1" "durable conn1 = d1" by (simp_all add: conn1_def)
  obtain vs2 w2 evs2 where ca2: "classify_all request (map fst (retry_queue d1)) w1 = (vs2, w2, evs2)"
    by (cases "classify_all request (map fst (retry_queue d1)) w1")
  have vs2: "verdicts request (map fst (retry_queue d1)) w1 = vs2" by (simp add: verdicts_def ca2)
  have len2: "length vs2 = length (retry_queue d1)"
    using length_classify_all[of request "map fst (retry_queue d1)" w1] ca2 by simp
  define d2 where "d2 = fold retry_settle (zip (retry_queue d1) vs2) d1"
  have l2: "retry_loop request (retry_queue d1) (d1, 0, w1, evs1) =
              (d2, length (filter (\<lambda>v. v \<noteq> Some True) vs2), w2, evs1 @ evs2)"
    using retry_loop_char[OF ca2, of d1 0 evs1] by (simp add: d2_def)
  have p2: "process_retry_queue request conn1 (w1, evs1) =
              (\<lparr>durable = d2, current = d2\<rparr>, length (filter (\<lambda>v. v \<noteq> Some True) vs2), w2, evs1 @ evs2)"
    using process_retry_queue_char[of request conn1 w1 vs2 w2 evs2 evs1] ca2 by (simp add: d2_def cur1)
  have m: "main request file w =
      (if mr > 0 then Some (d2, (mm, mr), Some (length (filter (\<lambda>v. v \<noteq> Some True) vs2)), w2, evs1 @ evs2)
       else Some (d1, (mm, mr), None, w1, evs1))"
    unfolding main_def Let_def conn0_def[symmetric] p1 by (simp add: p2 cur1)
  have fin: "file' = (if mr > 0 then d2 else d1)" using assms(3) m by (auto split: if_splits)

  \<comment> \<open>the states of the run\<close>
  let ?S1 = "wallets_states request AIRDROP_TABLE False (tokens file) (file, 0, 0, w, [])"
  let ?S2 = "retry_states request (retry_queue d1) (d1, 0, w1, evs1)"
  have ms: "main_states request file w = ?S1 @ (if mr > 0 then ?S2 else [])"
    by (simp add: main_states_def l1)
  have dj1: "fst ` set (tokens file) \<inter> (fst ` set (tokens_missing_tl file) \<union> fst ` set (retry_queue file)) = {}"
    using assms(2) by (auto simp: exclusive_def)
  have dt: "distinct (map fst (tokens file))" using assms(1) by (simp add: unique_keys_def)
  have inv1: "\<forall>d \<in> set ?S1. exclusive d \<and> unique_keys d"
    using wallets_states_inv[OF assms(2,1) dt dj1] .
  have S1: "?S1 \<noteq> []" "hd ?S1 = file" "last ?S1 = d1"
    using wallets_states_last[of request AIRDROP_TABLE False "tokens file" "(file, 0, 0, w, [])"] l1
    by simp_all
  have d1inv: "exclusive d1" "unique_keys d1"
    using inv1 S1(1,3) last_in_set[OF S1(1)] by auto
  have dj2: "fst ` set (retry_queue d1) \<inter> fst ` set (tokens d1) = {}"
    using d1inv(1) by (auto simp: exclusive_def)
  have inv2: "\<forall>d \<in> set ?S2. exclusive d \<and> unique_keys d"
    using retry_states_inv[OF d1inv dj2] .
  have S2: "?S2 \<noteq> []" "last ?S2 = d2"
    using retry_states_last[of request "retry_queue d1" "(d1, 0, w1, evs1)"] l2 by simp_all
  have I: "\<forall>d \<in> set (main_states request file w). exclusive d \<and> unique_keys d"
    unfolding ms using inv1 inv2 by auto
  have H: "hd (main_states request file w) = file"
    unfolding ms using S1 by simp
  have L: "last (main_states request file w) = file'"
    unfolding ms fin using S1 S2 by simp

  \<comment> \<open>where a wallet of the source table ends\<close>
  have R: "(W \<in> fst ` set (tokens file') \<and> W \<notin> fst ` set (tokens_missing_tl file')
               \<and> W \<notin> fst ` set (retry_queue file'))
          \<or> (W \<notin> fst ` set (tokens file') \<and> W \<in> fst ` set (tokens_missing_tl file')
               \<and> W \<notin> fst ` set (retry_queue file'))
          \<or> (W \<notin> fst ` set (tokens file') \<and> W \<notin> fst ` set (tokens_missing_tl file')
               \<and> W \<notin> fst ` set (retry_queue file')
               \<and> confirmed_on_retry request file w W)"
    if Win: "W \<in> fst ` set (tokens file)" for W
  proof -
    obtain B where row: "(W, B) \<in> set (tokens file)" using Win by auto
    obtain v where mem: "((W, B), v) \<in> set (zip (tokens file) vs1)"
      using zip_member_left[OF len1 row] by auto
    have dz: "distinct (map (fst \<circ> fst) (zip (tokens file) vs1))"
    proof -
      have "map (fst \<circ> fst) (zip (tokens file) vs1) = map fst (tokens file)"
        using len1 by (simp add: map_fst_zip flip: map_map)
      then show ?thesis using dt by simp
    qed
    note e1 = fold_settle_effect[OF dz mem, of "file", folded d1_def]
    have nm: "rows_of W (tokens_missing_tl file) = []" and nr: "rows_of W (retry_queue file) = []"
      using dj1 Win in_keys_rows_of[of W "tokens_missing_tl file"] in_keys_rows_of[of W "retry_queue file"]
      by auto
    have nt: "rows_of W (tokens file) \<noteq> []" using Win by (simp add: in_keys_rows_of)
    have t1: "W \<in> fst ` set (tokens d1) \<longleftrightarrow> v = Some True"
      using e1 nt by (simp add: in_keys_rows_of)
    have m1: "W \<in> fst ` set (tokens_missing_tl d1) \<longleftrightarrow> v = Some False"
      using e1 nm by (simp add: in_keys_rows_of)
    have r1: "W \<in> fst ` set (retry_queue d1) \<longleftrightarrow> v = None"
      using e1 nr by (simp add: in_keys_rows_of)
    have vin: "v \<in> set vs1" using mem by (meson set_zip_rightD)
    show ?thesis
    proof (cases "mr > 0")
      case False
      have "v \<noteq> None"
      proof
        assume "v = None"
        then have "None \<in> set vs1" using vin by simp
        from None_counted[OF this] False show False by (simp add: mr_def)
      qed
      then show ?thesis using t1 m1 r1 fin False by (cases v) auto
    next
      case True
      have f': "file' = d2" using fin True by simp
      have t2: "tokens d2 = tokens d1" by (simp add: d2_def fold_retry_tokens)
      have e2: "retry_queue d2 = []" unfolding d2_def using fold_retry_empties[OF len2] .
      show ?thesis
      proof (cases "v = None")
        case False
        then have "W \<notin> fst ` set (retry_queue d1)" using r1 by simp
        then have "W \<notin> fst ` fst ` set (zip (retry_queue d1) vs2)"
          using len2 by (metis map_fst_zip set_map)
        from fold_retry_frame[OF this, of d1, folded d2_def]
        have "W \<in> fst ` set (tokens_missing_tl d2) \<longleftrightarrow> W \<in> fst ` set (tokens_missing_tl d1)"
          by (simp add: in_keys_rows_of)
        then show ?thesis using t1 m1 False f' t2 e2 by (cases v) auto
      next
        case vN: True
        then obtain B' t where row2: "(W, B', t) \<in> set (retry_queue d1)" using r1 by auto
        obtain v2 where mem2: "((W, B', t), v2) \<in> set (zip (retry_queue d1) vs2)"
          using zip_member_left[OF len2 row2] by auto
        have dz2: "distinct (map (fst \<circ> fst) (zip (retry_queue d1) vs2))"
        proof -
          have "map (fst \<circ> fst) (zip (retry_queue d1) vs2) = map fst (retry_queue d1)"
            using len2 by (simp add: map_fst_zip flip: map_map)
          then show ?thesis using d1inv(2) by (simp add: unique_keys_def)
        qed
        note e = fold_retry_effect[OF dz2 mem2, of d1, folded d2_def]
        have nm1: "rows_of W (tokens_missing_tl d1) = []"
          using m1 vN by (simp add: in_keys_rows_of)
        have nt2: "W \<notin> fst ` set (tokens d2)" using t1 vN t2 by simp
        show ?thesis
        proof (cases "v2 = Some True")
          case False
          then have "W \<in> fst ` set (tokens_missing_tl d2)" using e by (simp add: in_keys_rows_of)
          then show ?thesis using nt2 e2 f' by simp
        next
          case T: True
          then have nm2: "W \<notin> fst ` set (tokens_missing_tl d2)" using e nm1 by (simp add: in_keys_rows_of)
          have "(W, Some True) \<in> set (zip (map fst (retry_queue d1)) vs2)"
          proof -
            have "(\<lambda>(r, v). (fst r, v)) ((W, B', t), v2) \<in> (\<lambda>(r, v). (fst r, v)) ` set (zip (retry_queue d1) vs2)"
              using mem2 by (rule imageI)
            then show ?thesis using T by (simp add: zip_map1)
          qed
          then have "confirmed_on_retry request file w W"
            unfolding confirmed_on_retry_def conn0_def[symmetric] p1 using True
            by (simp add: cur1 vs2)
          then show ?thesis using nt2 nm2 e2 f' by simp
        qed
      qed
    qed
  qed
  show ?thesis using I H L R by blast
qed

text \<open>
  The theorem on two wallets: \<open>W1\<close> is Present and stays; \<open>W3\<close> is Indeterminate
  in the first pass and Present in the second, and ends in no table.
\<close>

theorem residency_witness:
  "unique_keys \<lparr>tokens = [(''W1'', 100::int), (''W3'', 50)], tokens_missing_tl = [(''W9'', 1)],
                 retry_queue = []\<rparr>
   \<and> exclusive \<lparr>tokens = [(''W1'', 100::int), (''W3'', 50)], tokens_missing_tl = [(''W9'', 1)],
                 retry_queue = []\<rparr>
   \<and> main scripted
        \<lparr>tokens = [(''W1'', 100::int), (''W3'', 50)], tokens_missing_tl = [(''W9'', 1)],
           retry_queue = []\<rparr>
        [Successful (Some [trustline]), Raised, Raised, Raised, Raised, Raised, Raised,
         Successful (Some [trustline])]
     = Some (\<lparr>tokens = [(''W1'', 100)], tokens_missing_tl = [(''W9'', 1)], retry_queue = []\<rparr>,
             (0, 1), Some 0, [],
             Classify ''W1'' # Request ''https://xrplcluster.com/'' ''W1'' # Throttle
               # Classify ''W3'' # failed_lookup ''W3''
               @ [Throttle, Classify ''W3'', Request ''https://xrplcluster.com/'' ''W3'', Throttle])
   \<and> last (main_states scripted
        \<lparr>tokens = [(''W1'', 100::int), (''W3'', 50)], tokens_missing_tl = [(''W9'', 1)],
           retry_queue = []\<rparr>
        [Successful (Some [trustline]), Raised, Raised, Raised, Raised, Raised, Raised,
         Successful (Some [trustline])])
     = \<lparr>tokens = [(''W1'', 100)], tokens_missing_tl = [(''W9'', 1)], retry_queue = []\<rparr>
   \<and> confirmed_on_retry scripted
        \<lparr>tokens = [(''W1'', 100::int), (''W3'', 50)], tokens_missing_tl = [(''W9'', 1)],
           retry_queue = []\<rparr>
        [Successful (Some [trustline]), Raised, Raised, Raised, Raised, Raised, Raised,
         Successful (Some [trustline])] ''W3''"
proof -
  let ?F = "\<lparr>tokens = [(''W1'', 100::int), (''W3'', 50)], tokens_missing_tl = [(''W9'', 1)],
              retry_queue = []\<rparr>"
  let ?F' = "\<lparr>tokens = [(''W1'', 100::int)], tokens_missing_tl = [(''W9'', 1)], retry_queue = []\<rparr>"
  let ?w = "[Successful (Some [trustline]), Raised, Raised, Raised, Raised, Raised, Raised,
             Successful (Some [trustline])]"
  have u: "unique_keys ?F" by (simp add: unique_keys_def)
  have e: "exclusive ?F" by (simp add: exclusive_def)
  have h: "main scripted ?F ?w
     = Some (?F', (0, 1), Some 0, [],
             Classify ''W1'' # Request ''https://xrplcluster.com/'' ''W1'' # Throttle
               # Classify ''W3'' # failed_lookup ''W3''
               @ [Throttle, Classify ''W3'', Request ''https://xrplcluster.com/'' ''W3'', Throttle])"
    by (simp add: main_def process_retry_queue_def ensure_tables_def eval_defs)
  note th = residency [OF u e h]
  have l: "last (main_states scripted ?F ?w) = ?F'" using th by blast
  have "\<forall>Wallet \<in> fst ` set (tokens ?F).
            (Wallet \<in> fst ` set (tokens ?F') \<and> Wallet \<notin> fst ` set (tokens_missing_tl ?F')
               \<and> Wallet \<notin> fst ` set (retry_queue ?F'))
          \<or> (Wallet \<notin> fst ` set (tokens ?F') \<and> Wallet \<in> fst ` set (tokens_missing_tl ?F')
               \<and> Wallet \<notin> fst ` set (retry_queue ?F'))
          \<or> (Wallet \<notin> fst ` set (tokens ?F') \<and> Wallet \<notin> fst ` set (tokens_missing_tl ?F')
               \<and> Wallet \<notin> fst ` set (retry_queue ?F')
               \<and> confirmed_on_retry scripted ?F ?w Wallet)"
    using th by blast
  then have c: "confirmed_on_retry scripted ?F ?w ''W3''" by simp
  show ?thesis using u e h l c by simp
qed

end
